theory Spec2Isabelle
  imports Main "HOL-Library.Word" "HOL-Library.AList"
begin

unbundle bit_operations_syntax

section \<open>The lzw15 codec of pyart (src/pyart/aux_io/lzw15.py)\<close>

text \<open>
  Conventions of the embedding.
  \<^item> A byte (one element of a Python \<open>bytes\<close> object, or a length-one byte string made by
    \<open>struct.pack("B", n)\<close>) is an \<open>8 word\<close>; a byte string is a list of bytes.
  \<^item> Codepoints, dictionary sizes, widths and bit indices are Python ints that are never
    negative in the code paths below; they are \<open>nat\<close>.  Where the source subtracts
    (\<open>width - len(ret)\<close>) the result is only used as a repeat count, for which Python treats
    a negative number like zero, as truncating subtraction on \<open>nat\<close> does.
  \<^item> A bit is a Python int that is 0 or 1 and is only ever tested for truthiness; it is a
    \<open>bool\<close> (\<open>True\<close> for 1).
  \<^item> A generator is modelled by the list of everything it yields when run to its end.
  \<^item> An exception is a value of the type \<open>error\<close>.
\<close>

type_synonym byte = "8 word"

datatype error = ValueError | TypeError | IndexError | KeyError

definition END_OF_INFO_CODE :: nat where "END_OF_INFO_CODE = 256"
definition BUMP_CODE :: nat where "BUMP_CODE = 257"
definition NEXT_BUMP_CODE :: nat where "NEXT_BUMP_CODE = 511"
definition CLEAR_CODE :: nat where "CLEAR_CODE = 258"
definition DEFAULT_MIN_BITS :: nat where "DEFAULT_MIN_BITS = 9"
definition DEFAULT_MAX_BITS :: nat where "DEFAULT_MAX_BITS = 15"
definition MAX_CODE :: nat where "MAX_CODE = 2 ^ DEFAULT_MAX_BITS"

subsection \<open>Bit-sequence utilities\<close>

text \<open>The \<open>while remains:\<close> loop of \<open>inttobits\<close>; \<open>retreverse\<close> grows at its end.\<close>

function inttobits_loop :: "nat \<Rightarrow> bool list \<Rightarrow> bool list" where
  "inttobits_loop remains retreverse =
     (if remains \<noteq> 0
      then inttobits_loop (drop_bit 1 remains) (retreverse @ [(remains AND 1) \<noteq> 0])
      else retreverse)"
  by pat_completeness auto
termination
  by (relation "measure (\<lambda>(remains, retreverse). remains)") (auto simp: drop_bit_eq_div)

declare inttobits_loop.simps [simp del]

text \<open>\<open>inttobits(anint, width)\<close>; \<open>width=None\<close> is \<open>None\<close>.\<close>

definition inttobits :: "nat \<Rightarrow> nat option \<Rightarrow> bool list" where
  "inttobits anint width =
     (let ret = rev (inttobits_loop anint [])
      in case width of
           None \<Rightarrow> ret
         | Some w \<Rightarrow> replicate (w - length ret) False @ ret)"

text \<open>The \<open>for bit_index, lsb_first_el in enumerate(lsb_first)\<close> loop of \<open>intfrombits\<close>.\<close>

fun intfrombits_loop :: "nat \<Rightarrow> nat \<Rightarrow> bool list \<Rightarrow> nat" where
  "intfrombits_loop ret bit_index [] = ret"
| "intfrombits_loop ret bit_index (lsb_first_el # rest) =
     intfrombits_loop (if lsb_first_el then ret OR push_bit bit_index 1 else ret)
       (bit_index + 1) rest"

definition intfrombits :: "bool list \<Rightarrow> nat" where
  "intfrombits bits = intfrombits_loop 0 0 (rev bits)"

text \<open>\<open>bytestobits\<close>: for each byte, bit indices 7 down to 0.\<close>

definition bytestobits :: "byte list \<Rightarrow> bool list" where
  "bytestobits bytesource =
     concat (map (\<lambda>b. map (\<lambda>bitplusone. (1 AND drop_bit (bitplusone - 1) (unat b)) \<noteq> 0)
                          (rev [1..<9]))
                 bytesource)"

text \<open>The loop of \<open>bitstobytes\<close> and its final \<open>if nextbit < 7\<close>.\<close>

fun bitstobytes_loop :: "nat list \<Rightarrow> nat \<Rightarrow> nat \<Rightarrow> bool list \<Rightarrow> nat list" where
  "bitstobytes_loop ret nextbyte nextbit [] =
     (if nextbit < 7 then ret @ [nextbyte] else ret)"
| "bitstobytes_loop ret nextbyte nextbit (abit # bits) =
     (let nextbyte = (if abit then nextbyte OR push_bit nextbit 1 else nextbyte)
      in if nextbit \<noteq> 0
         then bitstobytes_loop ret nextbyte (nextbit - 1) bits
         else bitstobytes_loop (ret @ [nextbyte]) 0 7 bits)"

definition bitstobytes :: "bool list \<Rightarrow> nat list" where
  "bitstobytes bits = bitstobytes_loop [] 0 7 bits"

subsection \<open>BitPacker\<close>

text \<open>\<open>while len(tailbits) % 8: tailbits.append(0)\<close>\<close>

function pack_pad :: "bool list \<Rightarrow> bool list" where
  "pack_pad tailbits =
     (if length tailbits mod 8 \<noteq> 0 then pack_pad (tailbits @ [False]) else tailbits)"
  by pat_completeness auto
termination
proof (relation "measure (\<lambda>tailbits. (8 - length tailbits mod 8) mod 8)")
  fix tailbits :: "bool list"
  assume a: "length tailbits mod 8 \<noteq> 0"
  have b: "length tailbits mod 8 < 8" by simp
  have "Suc (length tailbits) mod 8 =
        (if Suc (length tailbits mod 8) = 8 then 0 else Suc (length tailbits mod 8))"
    by (rule mod_Suc)
  with a b show "(tailbits @ [False], tailbits)
        \<in> measure (\<lambda>tailbits. (8 - length tailbits mod 8) mod 8)"
    by (auto split: if_splits)
qed simp

declare pack_pad.simps [simp del]

text \<open>
  \<open>while len(tailbits) > 8\<close>: the bytes yielded and the bits left.  \<open>struct.pack("B", bt)\<close>
  turns the int into a byte; it would raise outside 0..255, which \<open>bitstobytes\<close> never
  returns (lemma \<open>bitstobytes_range\<close> below).
\<close>

function pack_drain :: "bool list \<Rightarrow> byte list \<times> bool list" where
  "pack_drain tailbits =
     (if length tailbits > 8
      then (let nextbits = take 8 tailbits;
                nextbytes = bitstobytes nextbits;
                (out, left) = pack_drain (drop 8 tailbits)
            in (map of_nat nextbytes @ out, left))
      else ([], tailbits))"
  by pat_completeness auto
termination
  by (relation "measure length") auto

declare pack_drain.simps [simp del]

text \<open>
  The \<open>for pt in codepoints\<close> loop of \<open>BitPacker.pack\<close> and the tail after it.  The
  \<open>print\<close> of the \<open>elif codesize >= MAX_CODE\<close> branch writes to standard output only and
  is left out; \<open>codesize\<close> is kept although nothing else reads it.
\<close>

fun pack_loop :: "bool list \<Rightarrow> nat \<Rightarrow> nat \<Rightarrow> nat list \<Rightarrow> byte list" where
  "pack_loop tailbits codesize nextwidth [] =
     (if tailbits \<noteq> [] then map of_nat (bitstobytes tailbits) else [])"
| "pack_loop tailbits codesize nextwidth (pt # codepoints) =
     (let newbits = inttobits pt (Some nextwidth);
          tailbits = tailbits @ newbits;
          codesize = codesize + 1;
          tailbits = (if pt = END_OF_INFO_CODE then pack_pad tailbits else tailbits);
          nextwidth = (if pt = BUMP_CODE then nextwidth + 1 else nextwidth);
          (out, tailbits) = pack_drain tailbits
      in out @ pack_loop tailbits codesize nextwidth codepoints)"

text \<open>\<open>BitPacker(initial_code_size).pack(codepoints)\<close>\<close>

definition pack :: "nat \<Rightarrow> nat list \<Rightarrow> byte list" where
  "pack initial_code_size codepoints =
     pack_loop [] initial_code_size DEFAULT_MIN_BITS codepoints"

subsection \<open>BitUnpacker\<close>

text \<open>The \<open>for nextbit in bytestobits(bytesource)\<close> loop of \<open>BitUnpacker.unpack\<close>.\<close>

fun unpack_loop :: "bool list \<Rightarrow> nat \<Rightarrow> nat \<Rightarrow> nat \<Rightarrow> nat \<Rightarrow> bool list \<Rightarrow> nat list" where
  "unpack_loop bits offset ignore codesize pointwidth [] = []"
| "unpack_loop bits offset ignore codesize pointwidth (nextbit # rest) =
     (let offset = (offset + 1) mod 8
      in if ignore > 0
         then unpack_loop bits offset (ignore - 1) codesize pointwidth rest
         else (let bits = bits @ [nextbit]
               in if length bits = pointwidth
                  then (let codepoint = intfrombits bits;
                            codesize = codesize + 1;
                            pointwidth = (if codepoint = BUMP_CODE then pointwidth + 1
                                          else pointwidth);
                            ignore = (if codepoint = END_OF_INFO_CODE then (8 - offset) mod 8
                                      else ignore)
                        in codepoint # unpack_loop [] offset ignore codesize pointwidth rest)
                  else unpack_loop bits offset ignore codesize pointwidth rest))"

text \<open>\<open>BitUnpacker(initial_code_size).unpack(bytesource)\<close>\<close>

definition unpack :: "nat \<Rightarrow> byte list \<Rightarrow> nat list" where
  "unpack initial_code_size bytesource =
     unpack_loop [] 0 0 initial_code_size DEFAULT_MIN_BITS (bytestobits bytesource)"

subsection \<open>Generators that change an object\<close>

text \<open>
  A generator method that may raise is a value \<open>error + (yielded list \<times> object after)\<close>.
  \<open>seq_gen\<close> runs one after the other, as \<open>for pt in g(): yield pt\<close> twice in a row does.
\<close>

definition seq_gen ::
  "error + ('a list \<times> 's) \<Rightarrow> ('s \<Rightarrow> error + ('a list \<times> 's)) \<Rightarrow> error + ('a list \<times> 's)" where
  "seq_gen m f =
     (case m of
        Inl err \<Rightarrow> Inl err
      | Inr (out, s) \<Rightarrow>
          (case f s of
             Inl err \<Rightarrow> Inl err
           | Inr (out', s') \<Rightarrow> Inr (out @ out', s')))"

subsection \<open>Encoder\<close>

text \<open>
  The keys of \<open>Encoder._prefixes\<close> are byte strings, and the three control codes as ints.
  The dictionary is an association list in insertion order: \<open>d[k] = v\<close> is
  \<open>AList.update k v d\<close> (replace the value of a key that is there, append a new key),
  \<open>k in d\<close> and \<open>d[k]\<close> are \<open>map_of d k\<close>, and \<open>len(d)\<close> is \<open>length d\<close>.
  The fields \<open>_max_code_size\<close>, \<open>_buffer\<close>, \<open>_prefixes\<close>, \<open>_next_bumb_code\<close> and
  \<open>_current_code_bits\<close> carry the prefix \<open>enc_\<close>.
\<close>

datatype pkey = KBytes "byte list" | KInt nat

record Encoder =
  enc_closed :: bool
  enc_max_code_size :: int
  enc_buffer :: "byte list"
  enc_prefixes :: "(pkey \<times> nat) list"
  enc_next_bumb_code :: nat
  enc_current_code_bits :: nat

text \<open>\<open>Encoder._clear_codes\<close>\<close>

definition initial_prefixes :: "(pkey \<times> nat) list" where
  "initial_prefixes =
     AList.update (KInt CLEAR_CODE) CLEAR_CODE
       (AList.update (KInt BUMP_CODE) BUMP_CODE
          (AList.update (KInt END_OF_INFO_CODE) END_OF_INFO_CODE
             (map (\<lambda>codept. (KBytes [of_nat codept], codept)) [0..<256])))"

definition enc_clear_codes :: "Encoder \<Rightarrow> Encoder" where
  "enc_clear_codes e =
     e\<lparr>enc_prefixes := initial_prefixes,
       enc_next_bumb_code := NEXT_BUMP_CODE,
       enc_current_code_bits := 9\<rparr>"

text \<open>\<open>Encoder.code_size\<close>\<close>

definition code_size :: "Encoder \<Rightarrow> nat" where
  "code_size e = length (enc_prefixes e)"

text \<open>
  \<open>Encoder.__init__(max_code_size)\<close>; the fields that \<open>_clear_codes\<close> sets have no value
  before it runs, the record starts them at the values it is about to give them.
\<close>

definition Encoder_init :: "int \<Rightarrow> error + Encoder" where
  "Encoder_init max_code_size =
     (let e = enc_clear_codes
                \<lparr>enc_closed = False, enc_max_code_size = max_code_size, enc_buffer = [],
                 enc_prefixes = [], enc_next_bumb_code = NEXT_BUMP_CODE,
                 enc_current_code_bits = 9\<rparr>
      in if max_code_size < int (code_size e) then Inl ValueError else Inr e)"

text \<open>\<open>Encoder._add_code\<close>\<close>

definition add_code :: "Encoder \<Rightarrow> byte list \<Rightarrow> Encoder" where
  "add_code e newstring =
     e\<lparr>enc_prefixes :=
         AList.update (KBytes newstring) (length (enc_prefixes e)) (enc_prefixes e)\<rparr>"

text \<open>\<open>Encoder.flush\<close>; \<open>self._prefixes[self._buffer]\<close> raises KeyError on a missing key.\<close>

definition flush :: "Encoder \<Rightarrow> error + (nat list \<times> Encoder)" where
  "flush e =
     (if enc_buffer e \<noteq> []
      then (case map_of (enc_prefixes e) (KBytes (enc_buffer e)) of
              None \<Rightarrow> Inl KeyError
            | Some code \<Rightarrow>
                Inr ([code, END_OF_INFO_CODE], enc_clear_codes (e\<lparr>enc_buffer := []\<rparr>)))
      else Inr ([END_OF_INFO_CODE], enc_clear_codes e))"

text \<open>\<open>Encoder.bump\<close>\<close>

definition bump :: "Encoder \<Rightarrow> error + (nat list \<times> Encoder)" where
  "bump e =
     Inr ([BUMP_CODE],
          e\<lparr>enc_current_code_bits := enc_current_code_bits e + 1,
            enc_next_bumb_code := push_bit 1 (enc_next_bumb_code e) OR 1\<rparr>)"

text \<open>
  \<open>Encoder._encode_byte\<close>.  \<open>point\<close> is an element of a \<open>bytes\<close> object, so the packed
  \<open>byte\<close> is the byte string of that one byte.
\<close>

definition encode_byte :: "Encoder \<Rightarrow> byte \<Rightarrow> error + (nat list \<times> Encoder)" where
  "encode_byte e point =
     (let byte = [point];
          new_prefix = enc_buffer e
      in if map_of (enc_prefixes e) (KBytes (new_prefix @ byte)) \<noteq> None
         then Inr ([], e\<lparr>enc_buffer := new_prefix @ byte\<rparr>)
         else if new_prefix \<noteq> []
         then (case map_of (enc_prefixes e) (KBytes new_prefix) of
                 None \<Rightarrow> Inl KeyError
               | Some encoded \<Rightarrow>
                   Inr ([encoded], (add_code e (new_prefix @ byte))\<lparr>enc_buffer := byte\<rparr>))
         else Inr ([], e\<lparr>enc_buffer := new_prefix\<rparr>))"

text \<open>The body of the \<open>for b in bytesource\<close> loop of \<open>Encoder.encode\<close>.\<close>

definition encode_step :: "Encoder \<Rightarrow> byte \<Rightarrow> error + (nat list \<times> Encoder)" where
  "encode_step e b =
     seq_gen (encode_byte e b) (\<lambda>e.
     seq_gen (if int (code_size e) > enc_max_code_size e then flush e else Inr ([], e)) (\<lambda>e.
       if code_size e > enc_next_bumb_code e then bump e else Inr ([], e)))"

text \<open>The loop itself: the codepoints yielded and the encoder after the last byte.\<close>

fun encode_bytes :: "Encoder \<Rightarrow> byte list \<Rightarrow> error + (nat list \<times> Encoder)" where
  "encode_bytes e [] = Inr ([], e)"
| "encode_bytes e (b # bytesource) =
     seq_gen (encode_step e b) (\<lambda>e. encode_bytes e bytesource)"

text \<open>\<open>Encoder.encode\<close>: the loop, then the final \<open>flush\<close>.\<close>

definition encode :: "Encoder \<Rightarrow> byte list \<Rightarrow> error + (nat list \<times> Encoder)" where
  "encode e bytesource = seq_gen (encode_bytes e bytesource) flush"

subsection \<open>Decoder\<close>

text \<open>
  The values of \<open>Decoder._codepoints\<close> are byte strings, and ints for the three control
  codes; \<open>_prefix\<close> is \<open>None\<close> or one of these values.  The fields carry the prefix \<open>dec_\<close>.
\<close>

datatype dval = VBytes "byte list" | VInt nat

record Decoder =
  dec_codepoints :: "(nat \<times> dval) list"
  dec_prefix :: "dval option"
  dec_remainder :: "byte list"
  dec_count :: nat

text \<open>\<open>Decoder._clear_codes\<close>\<close>

definition initial_codepoints :: "(nat \<times> dval) list" where
  "initial_codepoints =
     AList.update CLEAR_CODE (VInt CLEAR_CODE)
       (AList.update BUMP_CODE (VInt BUMP_CODE)
          (AList.update END_OF_INFO_CODE (VInt END_OF_INFO_CODE)
             (map (\<lambda>pt. (pt, VBytes [of_nat pt])) [0..<256])))"

definition dec_clear_codes :: "Decoder \<Rightarrow> Decoder" where
  "dec_clear_codes d = d\<lparr>dec_codepoints := initial_codepoints, dec_prefix := None\<rparr>"

text \<open>\<open>Decoder.__init__\<close> and \<open>Decoder.code_size\<close>\<close>

definition Decoder_init :: Decoder where
  "Decoder_init =
     (dec_clear_codes \<lparr>dec_codepoints = [], dec_prefix = None, dec_remainder = [],
                       dec_count = 0\<rparr>)\<lparr>dec_remainder := [], dec_count := 0\<rparr>"

definition dec_code_size :: "Decoder \<Rightarrow> nat" where
  "dec_code_size d = length (dec_codepoints d)"

text \<open>
  \<open>operator.getitem(x, 0)\<close>: the first byte of a byte string, IndexError on the empty one,
  TypeError on an int or on \<open>None\<close>.
\<close>

fun getitem0 :: "dval option \<Rightarrow> error + byte" where
  "getitem0 (Some (VBytes (c # cs))) = Inr c"
| "getitem0 (Some (VBytes [])) = Inl IndexError"
| "getitem0 (Some (VInt n)) = Inl TypeError"
| "getitem0 None = Inl TypeError"

text \<open>\<open>x + bs\<close> for a byte string \<open>bs\<close>: TypeError unless \<open>x\<close> is a byte string too.\<close>

fun add_bytes :: "dval option \<Rightarrow> byte list \<Rightarrow> error + dval" where
  "add_bytes (Some (VBytes p)) bs = Inr (VBytes (p @ bs))"
| "add_bytes (Some (VInt n)) bs = Inl TypeError"
| "add_bytes None bs = Inl TypeError"

text \<open>
  \<open>prefix + struct.Struct(">B").pack(operator.getitem(x, 0))\<close>: the right operand is
  evaluated before the sum, so its error comes first.
\<close>

definition prefix_plus_first :: "dval option \<Rightarrow> dval option \<Rightarrow> error + dval" where
  "prefix_plus_first prefix x =
     (case getitem0 x of
        Inl err \<Rightarrow> Inl err
      | Inr c \<Rightarrow> add_bytes prefix [c])"

text \<open>\<open>Decoder._decode_codepoint\<close>: the value returned and the decoder after the call.\<close>

definition decode_codepoint :: "Decoder \<Rightarrow> nat \<Rightarrow> error + (dval \<times> Decoder)" where
  "decode_codepoint d codepoint =
     (if codepoint = CLEAR_CODE then Inr (VBytes [], dec_clear_codes d)
      else if codepoint = END_OF_INFO_CODE then Inl ValueError
      else (case map_of (dec_codepoints d) codepoint of
              Some ret \<Rightarrow>
                (if dec_prefix d \<noteq> None
                 then (case prefix_plus_first (dec_prefix d) (Some ret) of
                         Inl err \<Rightarrow> Inl err
                       | Inr new \<Rightarrow>
                           Inr (ret,
                                d\<lparr>dec_codepoints :=
                                    AList.update (length (dec_codepoints d)) new
                                      (dec_codepoints d),
                                  dec_prefix := Some ret\<rparr>))
                 else Inr (ret, d\<lparr>dec_prefix := Some ret\<rparr>))
            | None \<Rightarrow>
                (case prefix_plus_first (dec_prefix d) (dec_prefix d) of
                   Inl err \<Rightarrow> Inl err
                 | Inr ret \<Rightarrow>
                     Inr (ret,
                          d\<lparr>dec_codepoints :=
                              AList.update (length (dec_codepoints d)) ret (dec_codepoints d),
                            dec_prefix := Some ret\<rparr>))))"

text \<open>
  The \<open>for cp in codepoints\<close> loop of \<open>Decoder.decode\<close>: the bytes yielded, the exception
  that ended the generator if one did, and the decoder at that point.  \<open>iter(decoded)\<close>
  raises TypeError on an int.
\<close>

fun decode_loop :: "Decoder \<Rightarrow> nat list \<Rightarrow> byte list \<times> error option \<times> Decoder" where
  "decode_loop d [] = ([], None, d)"
| "decode_loop d (cp # codepoints) =
     (if cp = BUMP_CODE then decode_loop d codepoints
      else if cp = END_OF_INFO_CODE then ([], None, d)
      else (case decode_codepoint d cp of
              Inl err \<Rightarrow> ([], Some err, d)
            | Inr (VInt n, d') \<Rightarrow> ([], Some TypeError, d')
            | Inr (VBytes decoded, d') \<Rightarrow>
                (let (out, res, d'') = decode_loop d' codepoints
                 in (decoded @ out, res, d''))))"

text \<open>
  \<open>Decoder.decode\<close>.  The argument is the source iterator, given as the codepoints it has
  yet to produce; the second component of the result is what the source has left when the
  generator is done.  \<open>codepoints = [cp for cp in codepoints]\<close> takes them all before the
  loop starts.
\<close>

definition decode ::
  "Decoder \<Rightarrow> nat list \<Rightarrow> (byte list \<times> error option \<times> Decoder) \<times> nat list" where
  "decode d source =
     (let codepoints = source;
          source_left = []
      in (decode_loop d codepoints, source_left))"

subsection \<open>ByteEncoder, ByteDecoder, compress and decompress\<close>

text \<open>
  \<open>ByteEncoder(max_width).encodetobytes(bytesource)\<close>: an \<open>Encoder(2**max_width)\<close> piped
  into a \<open>BitPacker\<close> of the encoder's initial code size.
\<close>

definition encodetobytes :: "nat \<Rightarrow> byte list \<Rightarrow> error + byte list" where
  "encodetobytes max_width bytesource =
     (case Encoder_init (2 ^ max_width) of
        Inl err \<Rightarrow> Inl err
      | Inr encoder \<Rightarrow>
          (case encode encoder bytesource of
             Inl err \<Rightarrow> Inl err
           | Inr (codepoints, encoder') \<Rightarrow> Inr (pack (code_size encoder) codepoints)))"

definition compress :: "byte list \<Rightarrow> error + byte list" where
  "compress plaintext_bytes = encodetobytes DEFAULT_MAX_BITS plaintext_bytes"

text \<open>
  \<open>ByteDecoder().decodefrombytes(bytesource)\<close>: a \<open>BitUnpacker\<close> of the decoder's initial
  code size piped into a \<open>Decoder\<close>; the bytes yielded and the exception, if any.
\<close>

definition decodefrombytes :: "byte list \<Rightarrow> byte list \<times> error option" where
  "decodefrombytes bytesource =
     (let decoder = Decoder_init;
          codepoints = unpack (dec_code_size decoder) bytesource;
          (clearbytes, res, decoder') = fst (decode decoder codepoints)
      in (clearbytes, res))"

definition decompress :: "byte list \<Rightarrow> byte list \<times> error option" where
  "decompress compressed_bytes = decodefrombytes compressed_bytes"

subsection \<open>Whole runs from a new object\<close>

text \<open>The bytes of an ASCII string literal, as in \<open>b"gabba"\<close>.\<close>

definition ascii :: "string \<Rightarrow> byte list" where
  "ascii s = map (\<lambda>c. of_nat (of_char c)) s"

text \<open>\<open>[cp for cp in Encoder(max_code_size).encode(bytesource)]\<close>\<close>

definition encode_fresh :: "int \<Rightarrow> byte list \<Rightarrow> error + nat list" where
  "encode_fresh max_code_size bytesource =
     (case Encoder_init max_code_size of
        Inl err \<Rightarrow> Inl err
      | Inr e \<Rightarrow>
          (case encode e bytesource of
             Inl err \<Rightarrow> Inl err
           | Inr (out, e') \<Rightarrow> Inr out))"

text \<open>
  The dictionary size of an \<open>Encoder(max_code_size)\<close> when its \<open>encode\<close> loop has processed
  the first \<open>n\<close> bytes of \<open>bytesource\<close>.
\<close>

definition size_after :: "int \<Rightarrow> byte list \<Rightarrow> nat \<Rightarrow> error + nat" where
  "size_after max_code_size bytesource n =
     (case Encoder_init max_code_size of
        Inl err \<Rightarrow> Inl err
      | Inr e \<Rightarrow>
          (case encode_bytes e (take n bytesource) of
             Inl err \<Rightarrow> Inl err
           | Inr (out, e') \<Rightarrow> Inr (code_size e')))"

text \<open>\<open>b"".join(Decoder().decode(source))\<close>: the bytes yielded and the exception, if any.\<close>

definition decode_fresh :: "nat list \<Rightarrow> byte list \<times> error option" where
  "decode_fresh source =
     (let ((out, res, d), source_left) = decode Decoder_init source in (out, res))"

subsection \<open>Invariants used in the proofs\<close>

text \<open>
  What holds of an encoder between two input bytes: every single byte has its own value
  as code, the buffer is empty or a key, the dictionary has at least its 259 initial
  entries and at most \<open>max_code_size\<close>, and no byte string has a control code.
\<close>

definition enc_inv :: "Encoder \<Rightarrow> bool" where
  "enc_inv e \<longleftrightarrow>
     (\<forall>b. map_of (enc_prefixes e) (KBytes [b]) = Some (unat b))
     \<and> (enc_buffer e = [] \<or> map_of (enc_prefixes e) (KBytes (enc_buffer e)) \<noteq> None)
     \<and> 259 \<le> length (enc_prefixes e)
     \<and> int (length (enc_prefixes e)) \<le> enc_max_code_size e
     \<and> (\<forall>bs v. map_of (enc_prefixes e) (KBytes bs) = Some v \<longrightarrow> v < 256 \<or> 259 \<le> v)"

text \<open>The same between \<open>_encode_byte\<close> and the size test, where the size may be one too large.\<close>

definition enc_inv0 :: "Encoder \<Rightarrow> bool" where
  "enc_inv0 e \<longleftrightarrow>
     (\<forall>b. map_of (enc_prefixes e) (KBytes [b]) = Some (unat b))
     \<and> (enc_buffer e = [] \<or> map_of (enc_prefixes e) (KBytes (enc_buffer e)) \<noteq> None)
     \<and> 259 \<le> length (enc_prefixes e)
     \<and> 259 \<le> enc_max_code_size e
     \<and> (\<forall>bs v. map_of (enc_prefixes e) (KBytes bs) = Some v \<longrightarrow> v < 256 \<or> 259 \<le> v)"

subsection \<open>Auxiliary functions of the bit-level proofs\<close>

text \<open>\<open>if bit: nextbyte = nextbyte | (1 << nextbit)\<close>, the update in \<open>bitstobytes\<close>.\<close>

definition setbit_of :: "bool \<Rightarrow> nat \<Rightarrow> nat \<Rightarrow> nat" where
  "setbit_of b nb k = (if b then nb OR push_bit k 1 else nb)"

text \<open>
  The bits \<open>pack\<close> appends to its output for a list of codepoints, when \<open>n\<close> bits have been
  written before and the width is \<open>w\<close>: each codepoint at the current width, and after
  END_OF_INFO_CODE the zeros up to the next multiple of eight.
\<close>

fun pack_bits :: "nat \<Rightarrow> nat \<Rightarrow> nat list \<Rightarrow> bool list" where
  "pack_bits n w [] = []"
| "pack_bits n w (pt # codepoints) =
     (let newbits = inttobits pt (Some w);
          pad = (if pt = END_OF_INFO_CODE
                 then replicate ((8 - (n + length newbits) mod 8) mod 8) False else [])
      in newbits @ pad @
         pack_bits (n + length newbits + length pad)
           (if pt = BUMP_CODE then w + 1 else w) codepoints)"

text \<open>
  The variables \<open>bits\<close>, \<open>offset\<close>, \<open>ignore\<close>, \<open>codesize\<close> and \<open>pointwidth\<close> of
  \<open>BitUnpacker.unpack\<close> when its loop has consumed the given bits: the loop of
  \<open>unpack_loop\<close>, returning the variables instead of the codepoints.
\<close>

fun unpack_state ::
  "bool list \<Rightarrow> nat \<Rightarrow> nat \<Rightarrow> nat \<Rightarrow> nat \<Rightarrow> bool list \<Rightarrow> bool list \<times> nat \<times> nat \<times> nat \<times> nat" where
  "unpack_state bits offset ignore codesize pointwidth [] =
     (bits, offset, ignore, codesize, pointwidth)"
| "unpack_state bits offset ignore codesize pointwidth (nextbit # rest) =
     (let offset = (offset + 1) mod 8
      in if ignore > 0
         then unpack_state bits offset (ignore - 1) codesize pointwidth rest
         else (let bits = bits @ [nextbit]
               in if length bits = pointwidth
                  then (let codepoint = intfrombits bits;
                            codesize = codesize + 1;
                            pointwidth = (if codepoint = BUMP_CODE then pointwidth + 1
                                          else pointwidth);
                            ignore = (if codepoint = END_OF_INFO_CODE then (8 - offset) mod 8
                                      else ignore)
                        in unpack_state [] offset ignore codesize pointwidth rest)
                  else unpack_state bits offset ignore codesize pointwidth rest))"

subsection \<open>An input that fills the dictionary\<close>

text \<open>
  The 32512 bytes \<open>x\<^sub>i = (i mod 256) * (2 * (i div 256) + 1) mod 256\<close>: blocks of 256 bytes, the
  block \<open>q\<close> stepping through all byte values by the odd number \<open>2 * q + 1\<close>.  No two
  adjacent bytes occur twice in it, so every byte after the first adds a dictionary entry.
\<close>

definition overflow_byte :: "nat \<Rightarrow> byte" where
  "overflow_byte i = of_nat (i mod 256) * of_nat (2 * (i div 256) + 1)"

definition overflow_input :: "byte list" where
  "overflow_input = map overflow_byte [0..<32512]"

text \<open>
  The encoder after the bytes \<open>xs\<close> of such an input, with \<open>out\<close> the codepoints yielded so
  far: the buffer holds the last byte, the dictionary has one entry more for each byte
  after the first, every single byte has its own value as code, every two-byte key is a pair
  of adjacent bytes of \<open>xs\<close>, and \<open>out\<close> is the bytes before the last one with BUMP_CODEs
  in between.
\<close>

definition enc_run :: "int \<Rightarrow> byte list \<Rightarrow> nat list \<Rightarrow> Encoder \<Rightarrow> bool" where
  "enc_run m xs out e \<longleftrightarrow>
     enc_buffer e = [last xs]
     \<and> length (enc_prefixes e) = 258 + length xs
     \<and> (\<forall>b. map_of (enc_prefixes e) (KBytes [b]) = Some (unat b))
     \<and> (\<forall>a b. map_of (enc_prefixes e) (KBytes [a, b]) \<noteq> None \<longrightarrow> (a, b) \<in> set (zip xs (tl xs)))
     \<and> enc_max_code_size e = m
     \<and> filter (\<lambda>c. c \<noteq> BUMP_CODE) out = map unat (butlast xs)
     \<and> (\<forall>c \<in> set out. c < 256 \<or> c = BUMP_CODE)"

text \<open>
  A decoder that still decodes every literal: the codes below 256 map to their byte, the
  dictionary has at least 256 entries, and the prefix is \<open>None\<close> or a byte string.
\<close>

definition dec_lit :: "Decoder \<Rightarrow> bool" where
  "dec_lit d \<longleftrightarrow>
     (\<forall>c < 256. map_of (dec_codepoints d) c = Some (VBytes [of_nat c]))
     \<and> 256 \<le> length (dec_codepoints d)
     \<and> (dec_prefix d = None \<or> (\<exists>p. dec_prefix d = Some (VBytes p)))"

section \<open>Properties of the bit-sequence utilities\<close>

lemma and_one_odd: "((n::nat) AND 1) \<noteq> 0 \<longleftrightarrow> odd n"
  by (simp add: and_one_eq mod_2_eq_odd)

lemma inttobits_loop_step:
  "n \<noteq> 0 \<Longrightarrow> inttobits_loop n acc = inttobits_loop (n div 2) (acc @ [odd n])"
  by (subst inttobits_loop.simps) (simp add: and_one_eq odd_iff_mod_2_eq_one drop_bit_eq_div)

lemma inttobits_loop_0 [simp]: "inttobits_loop 0 acc = acc"
  by (subst inttobits_loop.simps) simp

lemma inttobits_loop_acc: "inttobits_loop n acc = acc @ inttobits_loop n []"
proof (induction n arbitrary: acc rule: less_induct)
  case (less n)
  show ?case
  proof (cases "n = 0")
    case True
    then show ?thesis by simp
  next
    case False
    then have lt: "n div 2 < n" by simp
    have "inttobits_loop n acc = (acc @ [odd n]) @ inttobits_loop (n div 2) []"
      using False less [OF lt, of "acc @ [odd n]"] by (simp add: inttobits_loop_step)
    moreover have "inttobits_loop n [] = [odd n] @ inttobits_loop (n div 2) []"
      using False less [OF lt, of "[odd n]"] by (simp add: inttobits_loop_step)
    ultimately show ?thesis by simp
  qed
qed

lemma inttobits_loop_rec:
  "inttobits_loop n [] = (if n = 0 then [] else odd n # inttobits_loop (n div 2) [])"
  using inttobits_loop_acc [of "n div 2" "[odd n]"] by (simp add: inttobits_loop_step)

lemma inttobits_loop_nth:
  "i < length (inttobits_loop n []) \<Longrightarrow> inttobits_loop n [] ! i = bit n i"
proof (induction n arbitrary: i rule: less_induct)
  case (less n)
  show ?case
  proof (cases "n = 0")
    case True
    with less.prems show ?thesis by simp
  next
    case False
    then have lt: "n div 2 < n" by simp
    have eq: "inttobits_loop n [] = odd n # inttobits_loop (n div 2) []"
      using False by (subst inttobits_loop_rec) simp
    show ?thesis
    proof (cases i)
      case 0
      then show ?thesis by (simp add: eq bit_0)
    next
      case (Suc j)
      with less.prems eq have "j < length (inttobits_loop (n div 2) [])" by simp
      from less.IH [OF lt this] Suc show ?thesis by (simp add: eq bit_Suc)
    qed
  qed
qed

lemma inttobits_loop_bound: "n < 2 ^ length (inttobits_loop n [])"
proof (induction n rule: less_induct)
  case (less n)
  show ?case
  proof (cases "n = 0")
    case True
    then show ?thesis by simp
  next
    case False
    then have lt: "n div 2 < n" by simp
    have eq: "inttobits_loop n [] = odd n # inttobits_loop (n div 2) []"
      using False by (subst inttobits_loop_rec) simp
    from less [OF lt] show ?thesis by (simp add: eq)
  qed
qed

lemma inttobits_loop_lower:
  "n \<noteq> 0 \<Longrightarrow> 2 ^ (length (inttobits_loop n []) - 1) \<le> n"
proof (induction n rule: less_induct)
  case (less n)
  then have lt: "n div 2 < n" by simp
  have eq: "inttobits_loop n [] = odd n # inttobits_loop (n div 2) []"
    using less.prems by (subst inttobits_loop_rec) simp
  show ?case
  proof (cases "n div 2 = 0")
    case True
    with less.prems show ?thesis by (simp add: eq)
  next
    case False
    from less.IH [OF lt False] have "2 ^ (length (inttobits_loop (n div 2) []) - 1) \<le> n div 2" .
    moreover have "length (inttobits_loop (n div 2) []) \<noteq> 0"
      using False by (subst inttobits_loop_rec) simp
    ultimately have "2 ^ length (inttobits_loop (n div 2) []) \<le> 2 * (n div 2)"
      by (cases "length (inttobits_loop (n div 2) [])") simp_all
    then show ?thesis by (simp add: eq)
  qed
qed

lemma inttobits_loop_length_le:
  "n < 2 ^ w \<Longrightarrow> length (inttobits_loop n []) \<le> w"
proof (cases "n = 0")
  case True
  then show ?thesis by simp
next
  case False
  assume "n < 2 ^ w"
  with inttobits_loop_lower [OF False]
  have "(2::nat) ^ (length (inttobits_loop n []) - 1) < 2 ^ w" by linarith
  then have "length (inttobits_loop n []) - 1 < w" by simp
  then show ?thesis by linarith
qed

lemma inttobits_loop_length_gt:
  "\<not> n < 2 ^ w \<Longrightarrow> w < length (inttobits_loop n [])"
proof -
  assume "\<not> n < 2 ^ w"
  with inttobits_loop_bound [of n]
  have "(2::nat) ^ w < 2 ^ length (inttobits_loop n [])" by linarith
  then show ?thesis by simp
qed

lemma length_inttobits:
  "n < 2 ^ w \<Longrightarrow> length (inttobits n (Some w)) = w"
  using inttobits_loop_length_le [of n w] by (simp add: inttobits_def Let_def)

lemma inttobits_overflow:
  "\<not> n < 2 ^ w \<Longrightarrow> inttobits n (Some w) = inttobits n None"
  using inttobits_loop_length_gt [of n w] by (simp add: inttobits_def Let_def)

lemma intfrombits_loop_eq:
  "ret < 2 ^ k \<Longrightarrow>
   intfrombits_loop ret k bs = ret + 2 ^ k * horner_sum of_bool 2 bs"
proof (induction bs arbitrary: ret k)
  case Nil
  then show ?case by simp
next
  case (Cons b bs)
  have nb: "\<not> bit ret k"
    using Cons.prems by (simp add: bit_iff_odd)
  have disj: "ret OR 2 ^ k = ret + 2 ^ k"
    using nb set_bit_eq [of k ret] by (simp add: set_bit_eq_or)
  show ?case
  proof (cases b)
    case True
    have "ret + 2 ^ k < 2 ^ (k + 1)" using Cons.prems by simp
    from Cons.IH [OF this] True show ?thesis by (simp add: disj algebra_simps)
  next
    case False
    have "ret < 2 ^ (k + 1)" using Cons.prems by simp
    from Cons.IH [OF this] False show ?thesis by (simp add: algebra_simps)
  qed
qed

lemma intfrombits_horner: "intfrombits bs = horner_sum of_bool 2 (rev bs)"
  by (simp add: intfrombits_def intfrombits_loop_eq)


lemma inttobits_loop_map: "inttobits_loop n [] = map (bit n) [0..<length (inttobits_loop n [])]"
  by (rule nth_equalityI) (simp_all add: inttobits_loop_nth)

lemma horner_sum_replicate_False [simp]:
  "horner_sum of_bool (2::nat) (replicate k False) = 0"
  by (induction k) simp_all

lemma horner_inttobits_loop: "horner_sum of_bool 2 (inttobits_loop n []) = n"
proof -
  have "horner_sum of_bool 2 (map (bit n) [0..<length (inttobits_loop n [])]) =
        take_bit (length (inttobits_loop n [])) n"
    by (rule horner_sum_bit_eq_take_bit)
  also have "\<dots> = n"
    using inttobits_loop_bound [of n] by (simp add: take_bit_nat_eq_self_iff)
  finally show ?thesis using inttobits_loop_map [of n] by simp
qed

lemma intfrombits_inttobits: "intfrombits (inttobits v w) = v"
  by (cases w) (simp_all add: intfrombits_horner inttobits_def Let_def horner_sum_append
      horner_inttobits_loop)

lemma inttobits_nth:
  assumes "i < length (inttobits v w)"
  shows "inttobits v w ! i = bit v (length (inttobits v w) - 1 - i)"
proof -
  let ?L = "inttobits_loop v []"
  have pad: "\<not> bit v j" if "length ?L \<le> j" for j
  proof -
    have "v < 2 ^ length ?L" by (rule inttobits_loop_bound)
    also have "\<dots> \<le> 2 ^ j" using that by simp
    finally show ?thesis by (simp add: bit_iff_odd)
  qed
  have rv: "rev (inttobits v w) = ?L @ replicate (length (inttobits v w) - length ?L) False"
    by (cases w) (simp_all add: inttobits_def Let_def)
  have "inttobits v w ! i = rev (inttobits v w) ! (length (inttobits v w) - 1 - i)"
    using assms by (simp add: rev_nth)
  also have "\<dots> = bit v (length (inttobits v w) - 1 - i)"
    using assms pad [of "length (inttobits v w) - 1 - i"]
    by (subst rv) (auto simp: nth_append inttobits_loop_nth)
  finally show ?thesis .
qed

text \<open>
  Claim C9.  \<open>intfrombits\<close> reads any finite bit list as an unsigned integer, most
  significant bit first (the bit at index \<open>n\<close> from the end weighs \<open>2 ^ n\<close>), and the empty
  list as 0.  For every \<open>v\<close> and width \<open>w\<close>, \<open>inttobits v w\<close> is the binary representation of
  \<open>v\<close>, most significant bit first: its bit at index \<open>i\<close> is bit \<open>length - 1 - i\<close> of \<open>v\<close>.  It has
  exactly \<open>w\<close> bits when \<open>v < 2 ^ w\<close> (so it is padded with zeros on the left); when \<open>v\<close> needs
  more than \<open>w\<close> bits nothing is cut off: the result is longer than \<open>w\<close> and is the result
  without a width.  In each case \<open>intfrombits\<close> gives \<open>v\<close> back.
\<close>

theorem inttobits_intfrombits_contract:
  "intfrombits [] = 0
   \<and> intfrombits bs = (\<Sum>n = 0..<length bs. of_bool (rev bs ! n) * 2 ^ n)
   \<and> intfrombits (inttobits v (Some w)) = v
   \<and> (v < 2 ^ w \<longrightarrow> length (inttobits v (Some w)) = w)
   \<and> (\<not> v < 2 ^ w \<longrightarrow> w < length (inttobits v (Some w))
                        \<and> inttobits v (Some w) = inttobits v None)
   \<and> (\<forall>i < length (inttobits v (Some w)).
         inttobits v (Some w) ! i = bit v (length (inttobits v (Some w)) - 1 - i))"
proof (intro conjI allI impI)
  show "intfrombits [] = 0"
    by (simp add: intfrombits_def)
  show "intfrombits bs = (\<Sum>n = 0..<length bs. of_bool (rev bs ! n) * 2 ^ n)"
    by (simp add: intfrombits_horner horner_sum_eq_sum)
  show "intfrombits (inttobits v (Some w)) = v"
    by (rule intfrombits_inttobits)
  show "length (inttobits v (Some w)) = w" if "v < 2 ^ w"
    using that by (rule length_inttobits)
  show "w < length (inttobits v (Some w))" if "\<not> v < 2 ^ w"
    using inttobits_loop_length_gt [OF that] by (simp add: inttobits_def Let_def)
  show "inttobits v (Some w) = inttobits v None" if "\<not> v < 2 ^ w"
    using that by (rule inttobits_overflow)
  show "inttobits v (Some w) ! i = bit v (length (inttobits v (Some w)) - 1 - i)"
    if "i < length (inttobits v (Some w))" for i
    using that by (rule inttobits_nth)
qed

theorem inttobits_intfrombits_contract_witness:
  "(304::nat) < 2 ^ 16 \<and> \<not> (304::nat) < 2 ^ 4
   \<and> length (inttobits 304 (Some 16)) = 16
   \<and> 4 < length (inttobits 304 (Some 4))
   \<and> inttobits 304 (Some 4) ! 4 = bit (304::nat) (length (inttobits 304 (Some 4)) - 1 - 4)
   \<and> intfrombits (inttobits 304 (Some 16)) = 304"
proof -
  have h1: "(304::nat) < 2 ^ 16" and h2: "\<not> (304::nat) < 2 ^ 4"
    by simp_all
  note t1 = inttobits_intfrombits_contract [of "[]" 304 16]
  note t2 = inttobits_intfrombits_contract [of "[]" 304 4]
  from t1 h1 have a: "length (inttobits 304 (Some 16)) = 16" by blast
  from t1 have b: "intfrombits (inttobits 304 (Some 16)) = 304" by blast
  from t2 h2 have c: "4 < length (inttobits 304 (Some 4))" by blast
  from t2 c
  have d: "inttobits 304 (Some 4) ! 4 = bit (304::nat) (length (inttobits 304 (Some 4)) - 1 - 4)"
    by blast
  from h1 h2 a b c d show ?thesis by blast
qed

section \<open>Properties of the BitPacker\<close>

text \<open>
  Claim C5.  A \<open>BitPacker\<close> made with \<open>initial_code_size\<close> 258 packs the codepoints 1, 257
  into exactly the three bytes 0x00, 0xC0, 0x40: both codepoints are written nine bits
  wide, and the last byte is filled with zeros.
\<close>

theorem pack_fixture: "pack 258 [1, 257] = [0x00, 0xC0, 0x40]"
  by code_simp

section \<open>The dictionaries\<close>

lemmas code_consts = END_OF_INFO_CODE_def BUMP_CODE_def CLEAR_CODE_def NEXT_BUMP_CODE_def
  DEFAULT_MIN_BITS_def DEFAULT_MAX_BITS_def MAX_CODE_def

lemma alist_update_fresh: "k \<notin> fst ` set al \<Longrightarrow> AList.update k v al = al @ [(k, v)]"
  by (induction al) auto

lemma alist_update_append:
  "k \<notin> fst ` set al \<Longrightarrow> AList.update k v (al @ xs) = al @ AList.update k v xs"
  by (induction al) auto

lemma length_alist_update:
  "length (AList.update k v al) = (if k \<in> fst ` set al then length al else Suc (length al))"
  by (induction al) auto

lemma unat_of_nat_byte: "a < 256 \<Longrightarrow> unat (of_nat a :: byte) = a"
proof -
  assume a: "a < 256"
  have "unat (of_nat a :: byte) = a mod 2 ^ LENGTH(8)" by (rule unat_of_nat)
  also have "\<dots> = a mod 256" by simp
  also have "\<dots> = a" using a by (rule mod_less)
  finally show ?thesis .
qed

lemma byte_of_nat_inj: "a < 256 \<Longrightarrow> b < 256 \<Longrightarrow> (of_nat a :: byte) = of_nat b \<Longrightarrow> a = b"
  using unat_of_nat_byte [of a] unat_of_nat_byte [of b] by metis

lemma unat_byte_less: "unat (b :: byte) < 256"
  using unsigned_less [of b, where 'a = nat] by simp

lemma initial_prefixes_eq:
  "initial_prefixes =
     map (\<lambda>codept. (KBytes [of_nat codept], codept)) [0..<256] @
     [(KInt 256, 256), (KInt 257, 257), (KInt 258, 258)]"
  unfolding initial_prefixes_def code_consts
  by (simp add: alist_update_fresh image_iff)

lemma length_initial_prefixes [simp]: "length initial_prefixes = 259"
  by (simp add: initial_prefixes_eq)

lemma distinct_literal_keys:
  "distinct (map fst (map (\<lambda>codept. (KBytes [of_nat codept :: byte], codept)) [0..<256]))"
  by (auto simp: distinct_map inj_on_def dest: byte_of_nat_inj)

lemma map_of_literals:
  "map_of (map (\<lambda>codept. (KBytes [of_nat codept :: byte], codept)) [0..<256]) (KBytes bs) =
     (case bs of [b] \<Rightarrow> Some (unat b) | _ \<Rightarrow> None)"
proof (cases "\<exists>b. bs = [b]")
  case True
  then obtain b where bs: "bs = [b]" by blast
  have "(KBytes [b], unat b) \<in> set (map (\<lambda>codept. (KBytes [of_nat codept :: byte], codept)) [0..<256])"
    using unat_byte_less [of b] by (auto simp: image_iff intro!: bexI [of _ "unat b"])
  then show ?thesis
    using distinct_literal_keys by (simp add: bs)
next
  case False
  then have "KBytes bs \<notin> fst ` set (map (\<lambda>codept. (KBytes [of_nat codept :: byte], codept)) [0..<256])"
    by (auto simp: image_iff)
  then have "map_of (map (\<lambda>codept. (KBytes [of_nat codept :: byte], codept)) [0..<256]) (KBytes bs) = None"
    by (simp only: map_of_eq_None_iff simp_thms)
  with False show ?thesis by (auto split: list.splits)
qed

lemma map_of_initial_prefixes:
  "map_of initial_prefixes (KBytes bs) = (case bs of [b] \<Rightarrow> Some (unat b) | _ \<Rightarrow> None)"
  unfolding initial_prefixes_eq map_of_append
  by (simp add: map_add_def map_of_literals split: list.splits)

lemma map_of_initial_prefixes_app:
  "map_of (initial_prefixes @ xs) (KBytes bs) =
     (case bs of [b] \<Rightarrow> Some (unat b) | _ \<Rightarrow> map_of xs (KBytes bs))"
  by (simp add: map_add_def map_of_initial_prefixes split: list.splits option.splits)

lemma update_initial_prefixes_app:
  "length bs \<noteq> 1 \<Longrightarrow>
   AList.update (KBytes bs) v (initial_prefixes @ xs) = initial_prefixes @ AList.update (KBytes bs) v xs"
proof -
  assume "length bs \<noteq> 1"
  then have "KBytes bs \<notin> fst ` set initial_prefixes"
    by (auto simp: initial_prefixes_eq image_iff)
  then show ?thesis by (rule alist_update_append)
qed


lemma initial_codepoints_eq:
  "initial_codepoints =
     map (\<lambda>pt. (pt, VBytes [of_nat pt])) [0..<256] @
     [(256, VInt 256), (257, VInt 257), (258, VInt 258)]"
  unfolding initial_codepoints_def code_consts
  by (simp add: alist_update_fresh image_iff)

lemma length_initial_codepoints [simp]: "length initial_codepoints = 259"
  by (simp add: initial_codepoints_eq)

lemma keys_initial_codepoints: "fst ` set initial_codepoints = {0..<259}"
  by (auto simp: initial_codepoints_eq image_iff)

lemma map_of_initial_codepoints:
  "map_of initial_codepoints c =
     (if c < 256 then Some (VBytes [of_nat c])
      else if c < 259 then Some (VInt c) else None)"
proof -
  have lit: "map_of (map (\<lambda>pt. (pt, VBytes [of_nat pt :: byte])) [0..<256]) c =
             (if c < 256 then Some (VBytes [of_nat c]) else None)"
    by (simp add: map_of_map_restrict restrict_map_def)
  show ?thesis
    unfolding initial_codepoints_eq map_of_append
    by (auto simp: map_add_def lit)
qed

lemma map_of_initial_codepoints_app:
  "map_of (initial_codepoints @ xs) c =
     (if c < 259 then map_of initial_codepoints c else map_of xs c)"
  by (auto simp: map_add_def map_of_initial_codepoints split: option.splits)

lemma update_initial_codepoints_app:
  "259 \<le> k \<Longrightarrow>
   AList.update k v (initial_codepoints @ xs) = initial_codepoints @ AList.update k v xs"
  by (rule alist_update_append) (simp add: keys_initial_codepoints)

lemma update_initial_prefixes:
  "length bs \<noteq> 1 \<Longrightarrow>
   AList.update (KBytes bs) v initial_prefixes = initial_prefixes @ [(KBytes bs, v)]"
  using update_initial_prefixes_app [of bs v "[]"] by simp

lemma update_initial_codepoints:
  "259 \<le> k \<Longrightarrow> AList.update k v initial_codepoints = initial_codepoints @ [(k, v)]"
  using update_initial_codepoints_app [of k v "[]"] by simp

lemma map_add_initial_prefixes:
  "(m ++ map_of initial_prefixes) (KBytes bs) =
     (case bs of [b] \<Rightarrow> Some (unat b) | _ \<Rightarrow> m (KBytes bs))"
  by (simp add: map_add_def map_of_initial_prefixes split: list.splits option.splits)

lemma map_add_initial_codepoints:
  "(m ++ map_of initial_codepoints) c =
     (if c < 259 then map_of initial_codepoints c else m c)"
  by (auto simp: map_add_def map_of_initial_codepoints split: option.splits)

lemmas enc_eval = encode_fresh_def Encoder_init_def enc_clear_codes_def encode_def
  encode_step_def encode_byte_def seq_gen_def flush_def bump_def add_code_def code_size_def
  map_of_initial_prefixes map_add_initial_prefixes update_initial_prefixes
  update_initial_prefixes_app code_consts Let_def

lemmas dec_eval = decode_fresh_def decode_def Decoder_init_def dec_clear_codes_def
  decode_codepoint_def prefix_plus_first_def
  map_of_initial_codepoints map_add_initial_codepoints update_initial_codepoints
  update_initial_codepoints_app code_consts Let_def

section \<open>Construction and misuse\<close>

text \<open>
  Claim C7.  \<open>Encoder(max_code_size)\<close> raises ValueError exactly when \<open>max_code_size\<close> is
  below 259, the size of the initial dictionary, and returns an encoder exactly when it is
  at least 259.  The constructor takes no input data.
\<close>

theorem Encoder_init_max_code_size:
  "(Encoder_init max_code_size = Inl ValueError) = (max_code_size < 259)
   \<and> (\<exists>e. Encoder_init max_code_size = Inr e) = (259 \<le> max_code_size)"
  by (auto simp: Encoder_init_def enc_clear_codes_def code_size_def Let_def)

lemma prefix_plus_first_no_ValueError: "prefix_plus_first p x \<noteq> Inl ValueError"
  by (cases "(p, [] :: byte list)" rule: add_bytes.cases; cases x rule: getitem0.cases)
     (simp_all add: prefix_plus_first_def)

text \<open>
  Claim C8.  In every decoder state \<open>_decode_codepoint\<close> raises ValueError when it is given
  END_OF_INFO_CODE, and ValueError is raised for no other codepoint: the other failures of
  the primitive are TypeError and IndexError.
\<close>

theorem decode_codepoint_END_OF_INFO:
  "(decode_codepoint d codepoint = Inl ValueError) = (codepoint = END_OF_INFO_CODE)"
  using prefix_plus_first_no_ValueError
  by (auto simp: decode_codepoint_def code_consts split: option.splits sum.splits)

section \<open>The documented example\<close>

text \<open>
  Claim C2 as stated fails.  The claimed sequence has 258 as the first assigned code, but
  in this module 258 is CLEAR_CODE: the dictionary of a new \<open>Encoder\<close> has 259 entries (256
  bytes and the three control codes), so the first code it assigns is 259.  A new default
  \<open>Encoder\<close> does not encode \<open>b"gabba gabba yo gabba"\<close> to the claimed sequence, and a new
  \<open>Decoder\<close> given the claimed sequence yields \<open>b"gabba "\<close>, takes 258 as CLEAR_CODE and
  raises TypeError at 260, which the cleared dictionary does not hold while the prefix is
  \<open>None\<close>.
\<close>

theorem gabba_claimed_sequence:
  "encode_fresh (int MAX_CODE) (ascii ''gabba gabba yo gabba'') \<noteq>
     Inr [103, 97, 98, 98, 97, 32, 258, 260, 262, 121, 111, 263, 259, 261, 256]
   \<and> decode_fresh [103, 97, 98, 98, 97, 32, 258, 260, 262, 121, 111, 263, 259, 261, 256] =
     (ascii ''gabba '', Some TypeError)
   \<and> ascii ''gabba '' \<noteq> ascii ''gabba gabba yo gabba''"
  by (simp add: ascii_def enc_eval dec_eval)

text \<open>
  Claim C2, amended.  A new default \<open>Encoder\<close> encodes \<open>b"gabba gabba yo gabba"\<close> to
  103, 97, 98, 98, 97, 32, 259, 261, 263, 121, 111, 264, 260, 262, 256: every assigned code
  is one higher than in the claimed sequence.  A new \<open>Decoder\<close> given this sequence yields
  exactly the bytes of \<open>b"gabba gabba yo gabba"\<close> and raises nothing.
\<close>

theorem gabba_scenario:
  "encode_fresh (int MAX_CODE) (ascii ''gabba gabba yo gabba'') =
     Inr [103, 97, 98, 98, 97, 32, 259, 261, 263, 121, 111, 264, 260, 262, 256]
   \<and> decode_fresh [103, 97, 98, 98, 97, 32, 259, 261, 263, 121, 111, 264, 260, 262, 256] =
     (ascii ''gabba gabba yo gabba'', None)"
  by (simp add: ascii_def enc_eval dec_eval)

section \<open>The encoder's dictionary\<close>

lemma enc_inv_clear: "259 \<le> enc_max_code_size e \<Longrightarrow> enc_inv (enc_clear_codes (e\<lparr>enc_buffer := []\<rparr>))"
  by (auto simp: enc_inv_def enc_clear_codes_def map_of_initial_prefixes unat_byte_less
      split: list.splits)

lemma enc_inv_init: "Encoder_init m = Inr e \<Longrightarrow> enc_inv e \<and> enc_max_code_size e = m \<and> 259 \<le> m \<and> code_size e = 259"
  by (auto simp: Encoder_init_def Let_def enc_inv_def enc_clear_codes_def code_size_def
      map_of_initial_prefixes unat_byte_less split: list.splits if_splits)

lemma enc_inv_imp0: "enc_inv e \<Longrightarrow> enc_inv0 e"
  by (auto simp: enc_inv_def enc_inv0_def)

lemma encode_byte_inv:
  assumes "enc_inv0 e"
  shows "\<exists>out e'. encode_byte e b = Inr (out, e') \<and> enc_inv0 e'
           \<and> enc_max_code_size e' = enc_max_code_size e
           \<and> enc_next_bumb_code e' = enc_next_bumb_code e
           \<and> (code_size e' = code_size e \<or> code_size e' = code_size e + 1)
           \<and> (\<forall>c \<in> set out. c < 256 \<or> 259 \<le> c)"
proof (cases "map_of (enc_prefixes e) (KBytes (enc_buffer e @ [b])) \<noteq> None")
  case True
  with assms show ?thesis
    by (auto simp: encode_byte_def Let_def enc_inv0_def code_size_def)
next
  case False
  note notin = this
  show ?thesis
  proof (cases "enc_buffer e = []")
    case True
    with assms notin show ?thesis
      by (auto simp: encode_byte_def Let_def enc_inv0_def code_size_def)
  next
    case False
    with assms obtain encoded where enc: "map_of (enc_prefixes e) (KBytes (enc_buffer e)) = Some encoded"
      by (auto simp: enc_inv0_def)
    have notkey: "KBytes (enc_buffer e @ [b]) \<notin> fst ` set (enc_prefixes e)"
      using notin by (simp add: map_of_eq_None_iff)
    have len2: "enc_buffer e @ [b] \<noteq> [b']" for b'
      using False by (cases "enc_buffer e") auto
    have res: "encode_byte e b =
       Inr ([encoded], (add_code e (enc_buffer e @ [b]))\<lparr>enc_buffer := [b]\<rparr>)"
      using notin False enc by (simp add: encode_byte_def Let_def)
    have inv': "enc_inv0 ((add_code e (enc_buffer e @ [b]))\<lparr>enc_buffer := [b]\<rparr>)"
      using assms len2 notkey
      by (auto simp: enc_inv0_def add_code_def update_conv' length_alist_update)
    have "encoded < 256 \<or> 259 \<le> encoded"
      using assms enc by (auto simp: enc_inv0_def)
    with res inv' notkey show ?thesis
      by (simp add: add_code_def code_size_def length_alist_update)
  qed
qed


lemma enc_inv_clear2:
  "259 \<le> enc_max_code_size e \<Longrightarrow> enc_buffer e = [] \<Longrightarrow> enc_inv (enc_clear_codes e)"
  by (auto simp: enc_inv_def enc_clear_codes_def map_of_initial_prefixes unat_byte_less
      split: list.splits)

lemma flush_inv:
  assumes "enc_inv0 e"
  shows "\<exists>out e'. flush e = Inr (out, e') \<and> enc_inv e'
           \<and> enc_max_code_size e' = enc_max_code_size e \<and> code_size e' = 259
           \<and> enc_buffer e' = []
           \<and> (\<forall>c \<in> set out. c \<noteq> CLEAR_CODE)"
proof (cases "enc_buffer e = []")
  case True
  have m: "259 \<le> enc_max_code_size e" using assms by (simp add: enc_inv0_def)
  have "flush e = Inr ([END_OF_INFO_CODE], enc_clear_codes e)"
    using True by (simp add: flush_def)
  moreover have "enc_inv (enc_clear_codes e)"
    using m True by (rule enc_inv_clear2)
  ultimately show ?thesis
    using True by (simp add: enc_clear_codes_def code_size_def code_consts)
next
  case False
  have m: "259 \<le> enc_max_code_size e" using assms by (simp add: enc_inv0_def)
  from assms False obtain code where c: "map_of (enc_prefixes e) (KBytes (enc_buffer e)) = Some code"
    by (auto simp: enc_inv0_def)
  with assms have "code < 256 \<or> 259 \<le> code" unfolding enc_inv0_def by blast
  then have ne: "code \<noteq> CLEAR_CODE" by (auto simp: code_consts)
  have "flush e = Inr ([code, END_OF_INFO_CODE], enc_clear_codes (e\<lparr>enc_buffer := []\<rparr>))"
    using False c by (simp add: flush_def)
  moreover have "enc_inv (enc_clear_codes (e\<lparr>enc_buffer := []\<rparr>))"
    using m by (rule enc_inv_clear)
  ultimately show ?thesis
    using ne by (simp add: enc_clear_codes_def code_size_def code_consts)
qed

lemma bump_inv:
  "\<exists>e'. bump e = Inr ([BUMP_CODE], e') \<and> enc_prefixes e' = enc_prefixes e
        \<and> enc_buffer e' = enc_buffer e \<and> enc_max_code_size e' = enc_max_code_size e"
  by (simp add: bump_def)

lemma enc_inv_cong:
  "enc_prefixes e' = enc_prefixes e \<Longrightarrow> enc_buffer e' = enc_buffer e \<Longrightarrow>
   enc_max_code_size e' = enc_max_code_size e \<Longrightarrow> enc_inv e \<Longrightarrow> enc_inv e'"
  by (simp add: enc_inv_def)

lemma encode_step_inv:
  assumes "enc_inv e"
  shows "\<exists>out e'. encode_step e b = Inr (out, e') \<and> enc_inv e'
           \<and> enc_max_code_size e' = enc_max_code_size e
           \<and> (code_size e' = code_size e \<or> code_size e' = code_size e + 1
               \<or> (code_size e' = 259 \<and> int (code_size e) = enc_max_code_size e))
           \<and> (\<forall>c \<in> set out. c \<noteq> CLEAR_CODE)"
proof -
  from encode_byte_inv [OF enc_inv_imp0 [OF assms], of b]
  obtain out1 e1 where s1: "encode_byte e b = Inr (out1, e1)" and i1: "enc_inv0 e1"
    and m1: "enc_max_code_size e1 = enc_max_code_size e"
    and c1: "code_size e1 = code_size e \<or> code_size e1 = code_size e + 1"
    and o1: "\<forall>c \<in> set out1. c < 256 \<or> 259 \<le> c"
    by blast
  have le: "int (code_size e) \<le> enc_max_code_size e"
    using assms by (simp add: enc_inv_def code_size_def)
  define r2 where "r2 = (if int (code_size e1) > enc_max_code_size e1 then flush e1 else Inr ([], e1))"
  have "\<exists>out2 e2. r2 = Inr (out2, e2) \<and> enc_inv e2
          \<and> enc_max_code_size e2 = enc_max_code_size e
          \<and> (code_size e2 = code_size e \<or> code_size e2 = code_size e + 1
               \<or> (code_size e2 = 259 \<and> int (code_size e) = enc_max_code_size e))
          \<and> (\<forall>c \<in> set out2. c \<noteq> CLEAR_CODE)"
  proof (cases "int (code_size e1) > enc_max_code_size e1")
    case True
    from flush_inv [OF i1] obtain out2 e2 where f: "flush e1 = Inr (out2, e2)"
      and i2: "enc_inv e2" and m2: "enc_max_code_size e2 = enc_max_code_size e1"
      and c2: "code_size e2 = 259" and o2: "\<forall>c \<in> set out2. c \<noteq> CLEAR_CODE"
      by blast
    have "int (code_size e) = enc_max_code_size e"
      using True c1 le m1 by auto
    with f i2 m2 m1 c2 o2 True show ?thesis by (simp add: r2_def)
  next
    case False
    then have "enc_inv e1"
      using i1 by (auto simp: enc_inv_def enc_inv0_def code_size_def)
    with False m1 c1 show ?thesis by (auto simp: r2_def)
  qed
  then obtain out2 e2 where s2: "r2 = Inr (out2, e2)" and i2: "enc_inv e2"
    and m2: "enc_max_code_size e2 = enc_max_code_size e"
    and c2: "code_size e2 = code_size e \<or> code_size e2 = code_size e + 1
               \<or> (code_size e2 = 259 \<and> int (code_size e) = enc_max_code_size e)"
    and o2: "\<forall>c \<in> set out2. c \<noteq> CLEAR_CODE"
    by blast
  define r3 where "r3 = (if code_size e2 > enc_next_bumb_code e2 then bump e2 else Inr ([], e2))"
  have "\<exists>out3 e3. r3 = Inr (out3, e3) \<and> enc_inv e3
          \<and> enc_max_code_size e3 = enc_max_code_size e
          \<and> code_size e3 = code_size e2
          \<and> (\<forall>c \<in> set out3. c \<noteq> CLEAR_CODE)"
  proof (cases "code_size e2 > enc_next_bumb_code e2")
    case True
    from bump_inv [of e2] obtain e3 where b: "bump e2 = Inr ([BUMP_CODE], e3)"
      and p: "enc_prefixes e3 = enc_prefixes e2" "enc_buffer e3 = enc_buffer e2"
        "enc_max_code_size e3 = enc_max_code_size e2"
      by blast
    from enc_inv_cong [OF p i2] b p m2 True show ?thesis
      by (simp add: r3_def code_size_def code_consts)
  next
    case False
    with i2 m2 show ?thesis by (simp add: r3_def)
  qed
  then obtain out3 e3 where s3: "r3 = Inr (out3, e3)" and i3: "enc_inv e3"
    and m3: "enc_max_code_size e3 = enc_max_code_size e"
    and c3: "code_size e3 = code_size e2"
    and o3: "\<forall>c \<in> set out3. c \<noteq> CLEAR_CODE"
    by blast
  have "encode_step e b = Inr (out1 @ out2 @ out3, e3)"
    using s1 s2 s3 by (simp add: encode_step_def seq_gen_def r2_def r3_def)
  moreover have "\<forall>c \<in> set out1. c \<noteq> CLEAR_CODE"
    using o1 by (auto simp: code_consts)
  ultimately show ?thesis
    using i3 m3 c3 c2 o2 o3 by auto
qed

lemma seq_gen_assoc: "seq_gen (seq_gen m f) g = seq_gen m (\<lambda>s. seq_gen (f s) g)"
  by (auto simp: seq_gen_def split: sum.splits prod.splits)

lemma seq_gen_Inr_Nil [simp]: "seq_gen (Inr ([], s)) f = f s"
  by (auto simp: seq_gen_def split: sum.splits prod.splits)

lemma seq_gen_Inr_Nil_right [simp]: "seq_gen m (\<lambda>s. Inr ([], s)) = m"
  by (auto simp: seq_gen_def split: sum.splits prod.splits)

lemma encode_bytes_append:
  "encode_bytes e (xs @ ys) = seq_gen (encode_bytes e xs) (\<lambda>e. encode_bytes e ys)"
  by (induction xs arbitrary: e) (simp_all add: seq_gen_assoc)

lemma encode_bytes_inv:
  "enc_inv e \<Longrightarrow>
   \<exists>out e'. encode_bytes e bs = Inr (out, e') \<and> enc_inv e'
      \<and> enc_max_code_size e' = enc_max_code_size e \<and> (\<forall>c \<in> set out. c \<noteq> CLEAR_CODE)"
proof (induction bs arbitrary: e)
  case Nil
  then show ?case by simp
next
  case (Cons b bs)
  from encode_step_inv [OF Cons.prems, of b]
  obtain out1 e1 where s: "encode_step e b = Inr (out1, e1)" and i: "enc_inv e1"
    and m: "enc_max_code_size e1 = enc_max_code_size e"
    and o: "\<forall>c \<in> set out1. c \<noteq> CLEAR_CODE"
    by blast
  from Cons.IH [OF i] obtain out e' where r: "encode_bytes e1 bs = Inr (out, e')"
    and i': "enc_inv e'" and m': "enc_max_code_size e' = enc_max_code_size e1"
    and o': "\<forall>c \<in> set out. c \<noteq> CLEAR_CODE"
    by blast
  have "encode_bytes e (b # bs) = Inr (out1 @ out, e')"
    using s r by (simp add: seq_gen_def)
  with i' m m' o o' show ?case by auto
qed

text \<open>
  Claim C10.  For every \<open>max_code_size\<close> the constructor accepts and every input, \<open>encode\<close>
  runs to its end without an exception and never yields CLEAR_CODE (258): the codes of byte
  strings are below 256 or at least 259, \<open>flush\<close> yields END_OF_INFO_CODE and \<open>bump\<close>
  yields BUMP_CODE.
\<close>

theorem encode_never_CLEAR:
  "259 \<le> max_code_size \<Longrightarrow>
   \<exists>out. encode_fresh max_code_size bytesource = Inr out \<and> CLEAR_CODE \<notin> set out"
proof -
  assume "259 \<le> max_code_size"
  then obtain e where init: "Encoder_init max_code_size = Inr e"
    by (auto simp: Encoder_init_def enc_clear_codes_def code_size_def Let_def)
  from enc_inv_init [OF init] have "enc_inv e" by blast
  from encode_bytes_inv [OF this, of bytesource]
  obtain out1 e1 where r: "encode_bytes e bytesource = Inr (out1, e1)" and i: "enc_inv e1"
    and o: "\<forall>c \<in> set out1. c \<noteq> CLEAR_CODE"
    by blast
  from flush_inv [OF enc_inv_imp0 [OF i]]
  obtain out2 e2 where f: "flush e1 = Inr (out2, e2)" and o2: "\<forall>c \<in> set out2. c \<noteq> CLEAR_CODE"
    by blast
  have "encode_fresh max_code_size bytesource = Inr (out1 @ out2)"
    using init r f by (simp add: encode_fresh_def encode_def seq_gen_def)
  with o o2 show ?thesis by auto
qed

theorem encode_never_CLEAR_witness:
  "(259::int) \<le> 32768
   \<and> (\<exists>out. encode_fresh 32768 (ascii ''gabba'') = Inr out \<and> CLEAR_CODE \<notin> set out)"
  using encode_never_CLEAR [of 32768 "ascii ''gabba''"] by simp

text \<open>
  Claim C4 as stated fails: the dictionary size can drop.  With \<open>max_code_size\<close> 260 and
  the input bytes 1, 2, 3 the size is 260 after two bytes and 259 after three, because the
  third byte makes the dictionary larger than \<open>max_code_size\<close> and \<open>encode\<close> flushes.
\<close>

theorem size_after_decreases:
  "size_after 260 [1, 2, 3] 2 = Inr 260 \<and> size_after 260 [1, 2, 3] 3 = Inr 259"
  by (simp add: size_after_def enc_eval)

text \<open>
  Claim C4, amended.  For every \<open>max_code_size\<close> the constructor accepts, the dictionary
  size after \<open>n + 1\<close> input bytes is the size after \<open>n\<close> bytes, or one more, or it is back at
  259 because the dictionary was full (its size was \<open>max_code_size\<close>) and the byte added an
  entry, which makes \<open>encode\<close> flush.  So the size grows by at most one per byte, and it
  only drops at such a flush.
\<close>

theorem size_after_step:
  assumes "259 \<le> max_code_size" and "n < length bytesource"
  shows "\<exists>s s'. size_after max_code_size bytesource n = Inr s
           \<and> size_after max_code_size bytesource (n + 1) = Inr s'
           \<and> (s' = s \<or> s' = s + 1 \<or> (s' = 259 \<and> int s = max_code_size))"
proof -
  from assms(1) obtain e where init: "Encoder_init max_code_size = Inr e"
    by (auto simp: Encoder_init_def enc_clear_codes_def code_size_def Let_def)
  from enc_inv_init [OF init] have i0: "enc_inv e" and m0: "enc_max_code_size e = max_code_size"
    by blast+
  from encode_bytes_inv [OF i0, of "take n bytesource"]
  obtain out1 e1 where r: "encode_bytes e (take n bytesource) = Inr (out1, e1)"
    and i: "enc_inv e1" and m: "enc_max_code_size e1 = enc_max_code_size e"
    by blast
  from encode_step_inv [OF i, of "bytesource ! n"]
  obtain out2 e2 where s: "encode_step e1 (bytesource ! n) = Inr (out2, e2)"
    and c: "code_size e2 = code_size e1 \<or> code_size e2 = code_size e1 + 1
               \<or> (code_size e2 = 259 \<and> int (code_size e1) = enc_max_code_size e1)"
    by blast
  have "take (n + 1) bytesource = take n bytesource @ [bytesource ! n]"
    using assms(2) by (simp add: take_Suc_conv_app_nth)
  then have "encode_bytes e (take (n + 1) bytesource) = Inr (out1 @ out2, e2)"
    using r s by (simp add: encode_bytes_append seq_gen_def)
  with init r c m m0 show ?thesis
    by (simp add: size_after_def)
qed


theorem size_after_step_witness:
  "(259::int) \<le> 260 \<and> (2::nat) < length [1, 2, 3 :: byte]
   \<and> (\<exists>s s'. size_after 260 [1, 2, 3] 2 = Inr s
           \<and> size_after 260 [1, 2, 3] (2 + 1) = Inr s'
           \<and> (s' = s \<or> s' = s + 1 \<or> (s' = 259 \<and> int s = 260)))"
  using size_after_step [of 260 2 "[1, 2, 3]"] by simp

section \<open>The decoder and END_OF_INFO_CODE\<close>

lemma decode_loop_END_OF_INFO:
  "END_OF_INFO_CODE \<notin> set pre \<Longrightarrow>
   decode_loop d (pre @ END_OF_INFO_CODE # post) = decode_loop d pre"
proof (induction pre arbitrary: d)
  case Nil
  have "END_OF_INFO_CODE \<noteq> BUMP_CODE" by (simp add: code_consts)
  then show ?case by simp
next
  case (Cons cp pre)
  then show ?case by (auto split: sum.splits dval.splits prod.splits)
qed

text \<open>
  Claim C3 as stated fails in its last part: \<open>decode\<close> takes every codepoint from its
  source before it looks at the first one, so the codepoints after END_OF_INFO_CODE are
  consumed too.  After decoding the source 97, 256, 98 the source is empty, it does not
  still hold 98.
\<close>

theorem decode_drains_source:
  "snd (decode Decoder_init [97, END_OF_INFO_CODE, 98]) \<noteq> [98]"
  by (simp add: decode_def)


text \<open>
  Claim C3, amended.  When the source holds END_OF_INFO_CODE, with \<open>pre\<close> the codepoints
  before its first occurrence, \<open>decode\<close> yields what it yields for the source \<open>pre\<close> alone
  (the same bytes, the same exception if one is raised, the same decoder afterwards): the
  codepoints after END_OF_INFO_CODE add nothing.  They are taken from the source all the
  same, which is left empty.
\<close>

theorem decode_stops_at_END_OF_INFO:
  "END_OF_INFO_CODE \<notin> set pre \<Longrightarrow>
   fst (decode d (pre @ END_OF_INFO_CODE # post)) = fst (decode d pre)
   \<and> snd (decode d (pre @ END_OF_INFO_CODE # post)) = []"
  by (simp add: decode_def decode_loop_END_OF_INFO)

theorem decode_stops_at_END_OF_INFO_witness:
  "END_OF_INFO_CODE \<notin> set [97]
   \<and> fst (decode Decoder_init ([97] @ END_OF_INFO_CODE # [98])) = fst (decode Decoder_init [97])
   \<and> snd (decode Decoder_init ([97] @ END_OF_INFO_CODE # [98])) = []"
  using decode_stops_at_END_OF_INFO [of "[97]" Decoder_init "[98]"]
  by (simp add: code_consts)


section \<open>Bits and bytes\<close>

lemma intfrombits_Cons:
  "intfrombits (b # bs) = of_bool b * 2 ^ length bs + intfrombits bs"
  by (simp add: intfrombits_horner horner_sum_append)

lemma intfrombits_append:
  "intfrombits (as @ bs) = intfrombits as * 2 ^ length bs + intfrombits bs"
  by (simp add: intfrombits_horner horner_sum_append)

lemma intfrombits_replicate_False [simp]: "intfrombits (replicate k False) = 0"
  by (simp add: intfrombits_horner)

lemma intfrombits_less: "intfrombits bs < 2 ^ length bs"
  using horner_sum_bound [of "rev bs", where 'a = nat] by (simp add: intfrombits_horner)

lemma or_power_of_2:
  assumes "2 ^ Suc k dvd (nb::nat)"
  shows "nb OR push_bit k 1 = nb + 2 ^ k"
proof -
  from assms obtain m where "nb = 2 ^ Suc k * m" by (auto simp: dvd_def)
  then have "nb div 2 ^ k = 2 * m" by simp
  then have "\<not> bit nb k" by (simp add: bit_iff_odd)
  then show ?thesis using set_bit_eq [of k nb] by (simp add: set_bit_eq_or)
qed

lemma intfrombits_Nil [simp]: "intfrombits [] = 0"
  by (simp add: intfrombits_def)

lemma bitstobytes_loop_Cons:
  "bitstobytes_loop ret nb k (b # bits) =
     (if k \<noteq> 0 then bitstobytes_loop ret (setbit_of b nb k) (k - 1) bits
      else bitstobytes_loop (ret @ [setbit_of b nb k]) 0 7 bits)"
  by (simp add: setbit_of_def Let_def)

lemma setbit_of_add: "2 ^ Suc k dvd nb \<Longrightarrow> setbit_of b nb k = nb + of_bool b * 2 ^ k"
  using or_power_of_2 [of k nb] by (simp add: setbit_of_def)

lemma bitstobytes_loop_ret:
  "bitstobytes_loop ret nb k bits = ret @ bitstobytes_loop [] nb k bits"
proof (induction bits arbitrary: ret nb k)
  case Nil
  then show ?case by simp
next
  case (Cons b bits)
  show ?case
  proof (cases "k = 0")
    case True
    show ?thesis
      using Cons [of "ret @ [setbit_of b nb k]" 0 7] Cons [of "[setbit_of b nb k]" 0 7] True
      by (simp only: bitstobytes_loop_Cons) simp
  next
    case False
    then show ?thesis
      using Cons [of ret "setbit_of b nb k" "k - 1"]
      by (simp only: bitstobytes_loop_Cons) simp
  qed
qed

lemma dvd_setbit:
  assumes "2 ^ Suc (Suc j) dvd (nb::nat)"
  shows "2 ^ Suc j dvd nb + of_bool b * 2 ^ Suc j"
proof -
  have "(2::nat) ^ Suc j dvd 2 ^ Suc (Suc j)" by simp
  then have "2 ^ Suc j dvd nb" using assms by (rule dvd_trans)
  moreover have "(2::nat) ^ Suc j dvd of_bool b * 2 ^ Suc j" by simp
  ultimately show ?thesis by (rule dvd_add)
qed

lemma bitstobytes_loop_full:
  "length bs = Suc k \<Longrightarrow> 2 ^ Suc k dvd nb \<Longrightarrow>
   bitstobytes_loop ret nb k (bs @ rest) = bitstobytes_loop (ret @ [nb + intfrombits bs]) 0 7 rest"
proof (induction bs arbitrary: nb k)
  case Nil
  then show ?case by simp
next
  case (Cons b bs)
  note step = setbit_of_add [OF Cons.prems(2), of b]
  show ?case
  proof (cases k)
    case 0
    then have "bs = []" using Cons.prems by simp
    then show ?thesis
      using 0 step by (simp only: append_Cons bitstobytes_loop_Cons) (simp add: intfrombits_Cons)
  next
    case (Suc j)
    have len: "length bs = Suc j" using Cons.prems Suc by simp
    have dv: "2 ^ Suc j dvd nb + of_bool b * 2 ^ Suc j"
      using Cons.prems(2) unfolding Suc by (rule dvd_setbit)
    have "bitstobytes_loop ret nb k ((b # bs) @ rest) =
          bitstobytes_loop ret (nb + of_bool b * 2 ^ Suc j) j (bs @ rest)"
      using Suc step by (simp only: append_Cons bitstobytes_loop_Cons) simp
    also have "\<dots> = bitstobytes_loop (ret @ [nb + of_bool b * 2 ^ Suc j + intfrombits bs]) 0 7 rest"
      by (rule Cons.IH [OF len dv])
    also have "nb + of_bool b * 2 ^ Suc j + intfrombits bs = nb + intfrombits (b # bs)"
      using len by (simp add: intfrombits_Cons)
    finally show ?thesis .
  qed
qed

lemma bitstobytes_loop_part:
  "length bs \<le> k \<Longrightarrow> bs \<noteq> [] \<Longrightarrow> k \<le> 7 \<Longrightarrow> 2 ^ Suc k dvd nb \<Longrightarrow>
   bitstobytes_loop ret nb k bs = ret @ [nb + intfrombits bs * 2 ^ (Suc k - length bs)]"
proof (induction bs arbitrary: nb k)
  case Nil
  then show ?case by simp
next
  case (Cons b bs)
  note step = setbit_of_add [OF Cons.prems(4), of b]
  from Cons.prems obtain j where k: "k = Suc j" by (cases k) auto
  have dv: "2 ^ Suc j dvd nb + of_bool b * 2 ^ Suc j"
    using Cons.prems(4) unfolding k by (rule dvd_setbit)
  have first: "bitstobytes_loop ret nb k (b # bs) =
          bitstobytes_loop ret (nb + of_bool b * 2 ^ Suc j) j bs"
    using k step by (simp only: bitstobytes_loop_Cons) simp
  show ?case
  proof (cases "bs = []")
    case True
    have "j < 7" using Cons.prems k by simp
    then show ?thesis
      unfolding first using True k by (simp add: intfrombits_Cons)
  next
    case False
    have lj: "length bs \<le> j" using Cons.prems k by simp
    have j7: "j \<le> 7" using Cons.prems k by simp
    have "bitstobytes_loop ret (nb + of_bool b * 2 ^ Suc j) j bs =
          ret @ [nb + of_bool b * 2 ^ Suc j + intfrombits bs * 2 ^ (Suc j - length bs)]"
      by (rule Cons.IH [OF lj False j7 dv])
    moreover have "of_bool b * 2 ^ Suc j + intfrombits bs * 2 ^ (Suc j - length bs) =
          intfrombits (b # bs) * 2 ^ (Suc k - length (b # bs))"
    proof -
      have "length bs + (Suc j - length bs) = Suc j" using lj by simp
      then have "(2::nat) ^ length bs * 2 ^ (Suc j - length bs) = 2 ^ Suc j"
        by (simp flip: power_add)
      then show ?thesis
        using k by (simp add: intfrombits_Cons algebra_simps)
    qed
    ultimately show ?thesis unfolding first by (simp add: add.assoc)
  qed
qed

lemma bitstobytes_Nil [simp]: "bitstobytes [] = []"
  by (simp add: bitstobytes_def)

lemma bitstobytes_chunk:
  "length c = 8 \<Longrightarrow> bitstobytes (c @ rest) = intfrombits c # bitstobytes rest"
  using bitstobytes_loop_full [of c 7 0 "[]" rest] bitstobytes_loop_ret [of "[intfrombits c]" 0 7 rest]
  by (simp add: bitstobytes_def)

lemma bitstobytes_short:
  "bs \<noteq> [] \<Longrightarrow> length bs < 8 \<Longrightarrow> bitstobytes bs = [intfrombits bs * 2 ^ (8 - length bs)]"
  using bitstobytes_loop_part [of bs 7 0 "[]"] by (simp add: bitstobytes_def)

lemma bitstobytes_append:
  "length bs mod 8 = 0 \<Longrightarrow> bitstobytes (bs @ cs) = bitstobytes bs @ bitstobytes cs"
proof (induction "length bs" arbitrary: bs rule: less_induct)
  case less
  show ?case
  proof (cases "bs = []")
    case True
    then show ?thesis by simp
  next
    case False
    with less.prems have ge: "8 \<le> length bs"
      by (cases "length bs < 8") auto
    define c where "c = take 8 bs"
    define r where "r = drop 8 bs"
    have bs: "bs = c @ r" and lc: "length c = 8" and lr: "length r < length bs"
      using ge by (simp_all add: c_def r_def)
    have "length r mod 8 = 0"
      using less.prems le_mod_geq [OF ge] by (simp add: r_def)
    from less.hyps [OF lr this] show ?thesis
      using lc by (simp add: bs bitstobytes_chunk)
  qed
qed


lemma bytestobits_append [simp]:
  "bytestobits (xs @ ys) = bytestobits xs @ bytestobits ys"
  by (simp add: bytestobits_def)

lemma bytestobits_Nil [simp]: "bytestobits [] = []"
  by (simp add: bytestobits_def)

lemma bytestobits_Cons: "bytestobits (b # bs) = bytestobits [b] @ bytestobits bs"
  by (simp add: bytestobits_def)

lemma one_and_odd: "((1::nat) AND n) \<noteq> 0 \<longleftrightarrow> odd n"
  by (simp add: one_and_eq mod_2_eq_odd)

lemma bytestobits_single:
  "bytestobits [b] = map (\<lambda>i. bit (unat b) (7 - i)) [0..<8]"
proof -
  have "rev [1..<9] = map (\<lambda>i. 8 - i) [0..<8]"
    by (simp add: upt_rec numeral_eq_Suc)
  then show ?thesis
    by (simp add: bytestobits_def one_and_eq odd_iff_mod_2_eq_one bit_iff_odd_drop_bit comp_def
        del: upt_Suc)
qed

lemma length_bytestobits [simp]: "length (bytestobits bs) = 8 * length bs"
proof (induction bs)
  case Nil
  show ?case by simp
next
  case (Cons b bs)
  then show ?case by (subst bytestobits_Cons) (simp add: bytestobits_single)
qed

lemma bytestobits_intfrombits:
  assumes "length c = 8"
  shows "bytestobits [of_nat (intfrombits c) :: byte] = c"
proof -
  have lt: "intfrombits c < 256" using intfrombits_less [of c] assms by simp
  have u: "unat (of_nat (intfrombits c) :: byte) = intfrombits c"
    using lt by (rule unat_of_nat_byte)
  show ?thesis
  proof (rule nth_equalityI)
    show "length (bytestobits [of_nat (intfrombits c) :: byte]) = length c"
      using assms by simp
  next
    fix i assume "i < length (bytestobits [of_nat (intfrombits c) :: byte])"
    then have i: "i < 8" by simp
    have "bytestobits [of_nat (intfrombits c) :: byte] ! i = bit (intfrombits c) (7 - i)"
      using i by (simp add: bytestobits_single u del: upt_Suc)
    also have "\<dots> = rev c ! (7 - i)"
    proof -
      have "7 - i < length (rev c)" using assms by simp
      then show ?thesis by (simp add: intfrombits_horner bit_horner_sum_bit_iff)
    qed
    also have "\<dots> = c ! i"
      using i assms by (simp add: rev_nth)
    finally show "bytestobits [of_nat (intfrombits c) :: byte] ! i = c ! i" .
  qed
qed

lemma bytestobits_bitstobytes:
  "bytestobits (map of_nat (bitstobytes bs)) =
     bs @ replicate ((8 - length bs mod 8) mod 8) False"
proof (induction "length bs" arbitrary: bs rule: less_induct)
  case less
  show ?case
  proof (cases "length bs < 8")
    case True
    show ?thesis
    proof (cases "bs = []")
      case True
      then show ?thesis by simp
    next
      case False
      define c where "c = bs @ replicate (8 - length bs) False"
      have lc: "length c = 8" using True by (simp add: c_def)
      have "intfrombits c = intfrombits bs * 2 ^ (8 - length bs)"
        by (simp add: c_def intfrombits_append)
      then have "bytestobits (map of_nat (bitstobytes bs)) = c"
        using bitstobytes_short [OF False True] bytestobits_intfrombits [OF lc] by simp
      moreover have "(8 - length bs mod 8) mod 8 = 8 - length bs"
        using True False by simp
      ultimately show ?thesis by (simp add: c_def)
    qed
  next
    case False
    then have ge: "8 \<le> length bs" by simp
    define c where "c = take 8 bs"
    define r where "r = drop 8 bs"
    have bs: "bs = c @ r" and lc: "length c = 8" and lr: "length r < length bs"
      using ge by (simp_all add: c_def r_def)
    have m: "length r mod 8 = length bs mod 8"
      using le_mod_geq [OF ge] by (simp add: r_def)
    have "bytestobits (map of_nat (bitstobytes bs)) =
          bytestobits [of_nat (intfrombits c)] @ bytestobits (map of_nat (bitstobytes r))"
      using lc by (subst bs, simp add: bitstobytes_chunk bytestobits_Cons [of _ "map _ _"])
    also have "\<dots> = c @ r @ replicate ((8 - length r mod 8) mod 8) False"
      using less [OF lr] bytestobits_intfrombits [OF lc] by simp
    finally show ?thesis using m bs by simp
  qed
qed

lemma bitstobytes_range: "v \<in> set (bitstobytes bs) \<Longrightarrow> v < 256"
proof (induction "length bs" arbitrary: bs rule: less_induct)
  case less
  show ?case
  proof (cases "length bs < 8")
    case True
    show ?thesis
    proof (cases "bs = []")
      case True
      with less.prems show ?thesis by simp
    next
      case False
      have "intfrombits bs * 2 ^ (8 - length bs) < 2 ^ length bs * 2 ^ (8 - length bs)"
        using intfrombits_less [of bs] by simp
      also have "\<dots> = 2 ^ 8" using True by (simp flip: power_add)
      finally show ?thesis
        using less.prems bitstobytes_short [OF False True] by simp
    qed
  next
    case False
    then have ge: "8 \<le> length bs" by simp
    define c where "c = take 8 bs"
    define r where "r = drop 8 bs"
    have bs: "bs = c @ r" and lc: "length c = 8" and lr: "length r < length bs"
      using ge by (simp_all add: c_def r_def)
    have "bitstobytes bs = intfrombits c # bitstobytes r"
      using lc by (subst bs) (rule bitstobytes_chunk)
    with less.prems have "v = intfrombits c \<or> v \<in> set (bitstobytes r)" by simp
    then show ?thesis
      using less.hyps [OF lr] intfrombits_less [of c] lc by auto
  qed
qed

section \<open>The packer's output as one bit stream\<close>

lemma pack_pad_eq: "pack_pad t = t @ replicate ((8 - length t mod 8) mod 8) False"
proof (induction t rule: pack_pad.induct)
  case (1 t)
  show ?case
  proof (cases "length t mod 8 = 0")
    case True
    then show ?thesis by (subst pack_pad.simps) simp
  next
    case False
    have b: "length t mod 8 < 8" by simp
    have sm: "Suc (length t) mod 8 =
        (if Suc (length t mod 8) = 8 then 0 else Suc (length t mod 8))"
      by (rule mod_Suc)
    have "(8 - length t mod 8) mod 8 = Suc ((8 - Suc (length t) mod 8) mod 8)"
      using False b sm by (auto split: if_splits)
    then show ?thesis
      using False 1 by (subst pack_pad.simps) (simp add: replicate_app_Cons_same)
  qed
qed

lemma pad_to_byte: "(n + (8 - n mod 8) mod 8) mod 8 = (0::nat)"
proof (cases "n mod 8 = 0")
  case True
  then show ?thesis by simp
next
  case False
  have r: "n mod 8 < 8" by simp
  have n: "n = 8 * (n div 8) + n mod 8" by simp
  have "(8 - n mod 8) mod 8 = 8 - n mod 8" using False r by simp
  moreover have "n + (8 - n mod 8) = 8 * (n div 8 + 1)"
  proof -
    define q where "q = n div 8"
    define k where "k = n mod 8"
    have "n = 8 * q + k" "k < 8" by (simp_all add: q_def k_def)
    then show ?thesis unfolding q_def [symmetric] k_def [symmetric] by simp
  qed
  ultimately show ?thesis by (simp del: mult_Suc_right)
qed

lemma length_pack_pad: "length (pack_pad t) mod 8 = 0"
  using pad_to_byte [of "length t"] by (simp add: pack_pad_eq)

lemma pack_drain_split:
  "\<exists>a l. t = a @ l \<and> length a mod 8 = 0
       \<and> pack_drain t = (map of_nat (bitstobytes a), l)"
proof (induction t rule: pack_drain.induct)
  case (1 t)
  show ?case
  proof (cases "length t > 8")
    case False
    then have "pack_drain t = ([], t)" by (subst pack_drain.simps) simp
    then have "t = [] @ t \<and> length ([] :: bool list) mod 8 = 0
        \<and> pack_drain t = (map of_nat (bitstobytes []), t)"
      by simp
    then show ?thesis by (intro exI)
  next
    case True
    from 1 [OF True refl refl] obtain a l where
      a: "drop 8 t = a @ l" "length a mod 8 = 0"
         "pack_drain (drop 8 t) = (map of_nat (bitstobytes a), l)"
      by (elim exE conjE)
    have pd: "pack_drain t =
        (map of_nat (bitstobytes (take 8 t)) @ map of_nat (bitstobytes a), l)"
      using True a(3) by (subst pack_drain.simps) (simp add: Let_def)
    have l8: "length (take 8 t) = 8" using True by simp
    have "take 8 t @ drop 8 t = t" by simp
    then have t: "t = (take 8 t @ a) @ l"
      unfolding a(1) by simp
    have m: "length (take 8 t @ a) mod 8 = 0"
      using a(2) l8 by (simp del: length_take)
    have "bitstobytes (take 8 t @ a) = bitstobytes (take 8 t) @ bitstobytes a"
      by (rule bitstobytes_append) (simp only: l8, simp)
    then have "pack_drain t = (map of_nat (bitstobytes (take 8 t @ a)), l)"
      by (simp add: pd)
    with t m have "t = (take 8 t @ a) @ l \<and> length (take 8 t @ a) mod 8 = 0
        \<and> pack_drain t = (map of_nat (bitstobytes (take 8 t @ a)), l)"
      by (intro conjI)
    then show ?thesis by (intro exI)
  qed
qed

lemma pack_bits_mod:
  "n mod 8 = m mod 8 \<Longrightarrow> pack_bits n w cps = pack_bits m w cps"
proof (induction cps arbitrary: n m w)
  case Nil
  show ?case by simp
next
  case (Cons pt cps)
  have e: "(n + k) mod 8 = (m + k) mod 8" for k
  proof -
    have "(n + k) mod 8 = (n mod 8 + k) mod 8" by (simp add: mod_add_left_eq)
    also have "\<dots> = (m mod 8 + k) mod 8" using Cons.prems by simp
    also have "\<dots> = (m + k) mod 8" by (simp add: mod_add_left_eq)
    finally show ?thesis .
  qed
  have "pack_bits (n + k) w' cps = pack_bits (m + k) w' cps" for k w'
    by (rule Cons.IH) (rule e)
  then show ?case using e by (simp add: Let_def add.assoc)
qed

lemma pack_loop_step:
  "pack_drain (if pt = END_OF_INFO_CODE then pack_pad (tail @ inttobits pt (Some w))
               else tail @ inttobits pt (Some w)) = (out, l) \<Longrightarrow>
   pack_loop tail cs w (pt # cps) =
     out @ pack_loop l (cs + 1) (if pt = BUMP_CODE then w + 1 else w) cps"
  by (simp add: Let_def)

lemma pack_loop_bits:
  "pack_loop tail cs w cps = map of_nat (bitstobytes (tail @ pack_bits (length tail) w cps))"
proof (induction cps arbitrary: tail cs w)
  case Nil
  show ?case by simp
next
  case (Cons pt cps)
  define nb where "nb = inttobits pt (Some w)"
  define pad where "pad = (if pt = END_OF_INFO_CODE
       then replicate ((8 - (length tail + length nb) mod 8) mod 8) False else [])"
  define t1 where "t1 = tail @ nb @ pad"
  define w' where "w' = (if pt = BUMP_CODE then w + 1 else w)"
  have t1: "(if pt = END_OF_INFO_CODE then pack_pad (tail @ nb) else tail @ nb) = t1"
    by (simp add: t1_def pad_def pack_pad_eq)
  from pack_drain_split [of t1] obtain a l where
    a: "t1 = a @ l" "length a mod 8 = 0"
       "pack_drain t1 = (map of_nat (bitstobytes a), l)"
    by (elim exE conjE)
  have "length t1 mod 8 = (length a mod 8 + length l) mod 8"
    unfolding a(1) by (simp add: mod_add_left_eq)
  then have "length l mod 8 = length t1 mod 8"
    unfolding a(2) by simp
  then have pb: "pack_bits (length l) w' cps = pack_bits (length t1) w' cps"
    by (rule pack_bits_mod)
  have "pack_drain (if pt = END_OF_INFO_CODE then pack_pad (tail @ inttobits pt (Some w))
               else tail @ inttobits pt (Some w)) = (map of_nat (bitstobytes a), l)"
    unfolding t1 [unfolded nb_def] by (rule a(3))
  then have "pack_loop tail cs w (pt # cps) =
        map of_nat (bitstobytes a) @ pack_loop l (cs + 1) w' cps"
    unfolding w'_def by (rule pack_loop_step)
  also have "\<dots> = map of_nat (bitstobytes a) @
        map of_nat (bitstobytes (l @ pack_bits (length t1) w' cps))"
    using pb by (simp add: Cons.IH)
  also have "\<dots> = map of_nat (bitstobytes (a @ l @ pack_bits (length t1) w' cps))"
    using a(2) by (simp add: bitstobytes_append)
  also have "a @ l @ pack_bits (length t1) w' cps = t1 @ pack_bits (length t1) w' cps"
    unfolding a(1) by simp
  also have "\<dots> = tail @ pack_bits (length tail) w (pt # cps)"
    by (simp add: t1_def nb_def pad_def w'_def Let_def add.assoc)
  finally show ?case .
qed

lemma pack_bits_eq: "pack isz cps = map of_nat (bitstobytes (pack_bits 0 DEFAULT_MIN_BITS cps))"
  by (simp add: pack_def pack_loop_bits)

lemma pack_bits_append:
  "pack_bits n w (xs @ ys) =
     pack_bits n w xs @
     pack_bits (n + length (pack_bits n w xs)) (w + count_list xs BUMP_CODE) ys"
  by (induction xs arbitrary: n w) (simp_all add: Let_def add.assoc)

lemma pack_bits_EOI_aligned:
  "(n + length (pack_bits n w (xs @ [END_OF_INFO_CODE]))) mod 8 = 0"
proof -
  define m where "m = n + length (pack_bits n w xs)"
  define w' where "w' = w + count_list xs BUMP_CODE"
  define k where "k = length (inttobits END_OF_INFO_CODE (Some w'))"
  have "n + length (pack_bits n w (xs @ [END_OF_INFO_CODE])) =
        (m + k) + (8 - (m + k) mod 8) mod 8"
    by (simp add: pack_bits_append Let_def m_def w'_def k_def)
  then show ?thesis by (simp only: pad_to_byte)
qed

lemma pack_loop_codesize: "pack_loop t cs w cps = pack_loop t cs' w cps"
  by (simp add: pack_loop_bits)

lemma pack_after_END_OF_INFO:
  "pack isz (pre @ END_OF_INFO_CODE # post) =
     pack isz (pre @ [END_OF_INFO_CODE]) @
     pack_loop [] cs (DEFAULT_MIN_BITS + count_list pre BUMP_CODE) post"
proof -
  define B where "B = pack_bits 0 DEFAULT_MIN_BITS (pre @ [END_OF_INFO_CODE])"
  define w' where "w' = DEFAULT_MIN_BITS + count_list pre BUMP_CODE"
  have al: "length B mod 8 = 0"
    using pack_bits_EOI_aligned [of 0 DEFAULT_MIN_BITS pre] by (simp add: B_def)
  have ne: "END_OF_INFO_CODE \<noteq> BUMP_CODE" by (simp add: code_consts)
  have "pack_bits 0 DEFAULT_MIN_BITS ((pre @ [END_OF_INFO_CODE]) @ post) =
        B @ pack_bits (0 + length B) (DEFAULT_MIN_BITS + count_list (pre @ [END_OF_INFO_CODE]) BUMP_CODE) post"
    unfolding B_def by (rule pack_bits_append)
  also have "DEFAULT_MIN_BITS + count_list (pre @ [END_OF_INFO_CODE]) BUMP_CODE = w'"
    using ne by (simp add: w'_def)
  also have "pack_bits (0 + length B) w' post = pack_bits 0 w' post"
    by (rule pack_bits_mod) (simp add: al)
  finally have "pack_bits 0 DEFAULT_MIN_BITS (pre @ END_OF_INFO_CODE # post) =
        B @ pack_bits 0 w' post"
    by simp
  then have "pack isz (pre @ END_OF_INFO_CODE # post) =
        map of_nat (bitstobytes B) @ map of_nat (bitstobytes (pack_bits 0 w' post))"
    using al by (simp add: pack_bits_eq bitstobytes_append)
  then show ?thesis
    by (simp add: pack_bits_eq B_def w'_def pack_loop_bits)
qed

lemma unpack_loop_offset_mod:
  "o1 mod 8 = o2 mod 8 \<Longrightarrow> unpack_loop b o1 i c w bs = unpack_loop b o2 i c w bs"
proof (cases bs)
  case Nil
  then show ?thesis by simp
next
  case (Cons x xs)
  assume "o1 mod 8 = o2 mod 8"
  then have "(o1 + 1) mod 8 = (o2 + 1) mod 8"
    by (simp add: mod_Suc)
  then show ?thesis unfolding Cons by (simp only: unpack_loop.simps Let_def)
qed

lemma unpack_loop_skip:
  "unpack_loop b ofs i c w bs = unpack_loop b (ofs + i) 0 c w (drop i bs)"
proof (induction bs arbitrary: ofs i)
  case Nil
  show ?case by simp
next
  case (Cons x xs)
  show ?case
  proof (cases i)
    case 0
    then show ?thesis by simp
  next
    case (Suc j)
    have "unpack_loop b ofs (Suc j) c w (x # xs) = unpack_loop b ((ofs + 1) mod 8) j c w xs"
      by (simp add: Let_def)
    also have "\<dots> = unpack_loop b ((ofs + 1) mod 8 + j) 0 c w (drop j xs)"
      by (rule Cons.IH)
    also have "\<dots> = unpack_loop b (ofs + Suc j) 0 c w (drop j xs)"
      by (rule unpack_loop_offset_mod) (simp add: mod_add_left_eq)
    finally show ?thesis using Suc by simp
  qed
qed

lemma unpack_loop_short:
  "length acc + length bs < w \<Longrightarrow> unpack_loop acc ofs i c w bs = []"
proof (induction bs arbitrary: acc ofs i)
  case Nil
  show ?case by simp
next
  case (Cons x xs)
  have 1: "unpack_loop acc ofs' i' c w xs = []" for ofs' i'
    by (rule Cons.IH) (use Cons.prems in simp)
  have 2: "unpack_loop (acc @ [x]) ofs' i' c w xs = []" for ofs' i'
    by (rule Cons.IH) (use Cons.prems in simp)
  have 3: "length (acc @ [x]) \<noteq> w" using Cons.prems by simp
  show ?case using 1 2 3 by (simp add: Let_def)
qed

lemma unpack_loop_read:
  "length acc + length nb = w \<Longrightarrow> nb \<noteq> [] \<Longrightarrow>
   unpack_loop acc ofs 0 c w (nb @ rest) =
     intfrombits (acc @ nb) #
     unpack_loop [] ((ofs + length nb) mod 8)
       (if intfrombits (acc @ nb) = END_OF_INFO_CODE then (8 - (ofs + length nb) mod 8) mod 8 else 0)
       (c + 1)
       (if intfrombits (acc @ nb) = BUMP_CODE then w + 1 else w) rest"
proof (induction nb arbitrary: acc ofs)
  case Nil
  then show ?case by simp
next
  case (Cons x xs)
  show ?case
  proof (cases "xs = []")
    case True
    then have "length (acc @ [x]) = w" using Cons.prems by simp
    then show ?thesis using True by (simp add: Let_def)
  next
    case False
    have ne: "length (acc @ [x]) \<noteq> w" using Cons.prems False by (cases xs) auto
    have l: "length (acc @ [x]) + length xs = w" using Cons.prems by simp
    have m: "((ofs + 1) mod 8 + length xs) mod 8 = (ofs + length (x # xs)) mod 8"
      by (simp add: mod_add_left_eq)
    have "unpack_loop acc ofs 0 c w ((x # xs) @ rest) =
          unpack_loop (acc @ [x]) ((ofs + 1) mod 8) 0 c w (xs @ rest)"
      using ne by (simp add: Let_def)
    also note Cons.IH [OF l False, of "(ofs + 1) mod 8"]
    finally show ?thesis unfolding m by simp
  qed
qed

section \<open>The unpacker\<close>

lemma unpack_loop_append:
  "unpack_loop b ofs i c w (xs @ ys) =
     unpack_loop b ofs i c w xs @
     (case unpack_state b ofs i c w xs of
        (b', ofs', i', c', w') \<Rightarrow> unpack_loop b' ofs' i' c' w' ys)"
  by (induction b ofs i c w xs rule: unpack_loop.induct) (simp_all add: Let_def)

lemma unpack_state_offset:
  "unpack_state b ofs i c w xs = (b', ofs', i', c', w') \<Longrightarrow> ofs' mod 8 = (ofs + length xs) mod 8"
proof (induction b ofs i c w xs rule: unpack_state.induct)
  case (1 bits offset ignore codesize pointwidth)
  then show ?case by simp
next
  case (2 bits offset ignore codesize pointwidth nextbit rest)
  have m: "((offset + 1) mod 8 + length rest) mod 8 = (offset + length (nextbit # rest)) mod 8"
    by (simp add: mod_add_left_eq)
  from "2.prems" "2.IH" show ?case
    unfolding m [symmetric]
    by (simp add: Let_def split: if_splits)
qed

lemma unpack_skips_to_byte_boundary:
  assumes st: "unpack_state [] 0 0 isz DEFAULT_MIN_BITS read = (acc, offset, 0, cs, w)"
    and len: "length acc + length nb = w" and ne: "nb \<noteq> []"
    and eoi: "intfrombits (acc @ nb) = END_OF_INFO_CODE"
  shows "unpack_loop [] 0 0 isz DEFAULT_MIN_BITS (read @ nb @ rest) =
     unpack_loop [] 0 0 isz DEFAULT_MIN_BITS read @
     END_OF_INFO_CODE #
     unpack_loop [] 0 0 (cs + 1) w (drop ((8 - (length read + length nb) mod 8) mod 8) rest)"
proof -
  define p where "p = (length read + length nb) mod 8"
  have om: "offset mod 8 = length read mod 8"
    using unpack_state_offset [OF st] by simp
  have p: "(offset + length nb) mod 8 = p"
  proof -
    have "(offset + length nb) mod 8 = (offset mod 8 + length nb) mod 8"
      by (simp add: mod_add_left_eq)
    also have "\<dots> = p" unfolding om p_def by (simp add: mod_add_left_eq)
    finally show ?thesis .
  qed
  have nb: "END_OF_INFO_CODE \<noteq> BUMP_CODE" by (simp add: code_consts)
  have "unpack_loop [] 0 0 isz DEFAULT_MIN_BITS (read @ nb @ rest) =
        unpack_loop [] 0 0 isz DEFAULT_MIN_BITS read @ unpack_loop acc offset 0 cs w (nb @ rest)"
    by (simp add: unpack_loop_append st)
  also have "unpack_loop acc offset 0 cs w (nb @ rest) =
        END_OF_INFO_CODE # unpack_loop [] p ((8 - p) mod 8) (cs + 1) w rest"
    using unpack_loop_read [OF len ne, of offset cs rest] nb
    unfolding eoi p by simp
  also have "unpack_loop [] p ((8 - p) mod 8) (cs + 1) w rest =
        unpack_loop [] (p + (8 - p) mod 8) 0 (cs + 1) w (drop ((8 - p) mod 8) rest)"
    by (rule unpack_loop_skip)
  also have "\<dots> = unpack_loop [] 0 0 (cs + 1) w (drop ((8 - p) mod 8) rest)"
  proof (rule unpack_loop_offset_mod)
    have "p mod 8 = p" by (simp add: p_def)
    then show "(p + (8 - p) mod 8) mod 8 = 0 mod 8"
      using pad_to_byte [of p] by simp
  qed
  finally show ?thesis unfolding p_def .
qed

lemma length_inttobits_512:
  "c < 512 \<Longrightarrow> 9 \<le> w \<Longrightarrow> length (inttobits c (Some w)) = w"
proof (rule length_inttobits)
  assume "c < 512" "9 \<le> w"
  have "(2::nat) ^ 9 \<le> 2 ^ w" using \<open>9 \<le> w\<close> by (rule power_increasing) simp
  then show "c < 2 ^ w" using \<open>c < 512\<close> by simp
qed

lemma unpack_pack_bits:
  "\<forall>c \<in> set cps. c < 512 \<Longrightarrow> 9 \<le> w \<Longrightarrow> length tr < 9 \<Longrightarrow>
   unpack_loop [] n 0 cs w (pack_bits n w cps @ tr) = cps"
proof (induction cps arbitrary: n cs w)
  case Nil
  have "length ([] :: bool list) + length tr < w" using Nil by simp
  then show ?case by (simp add: unpack_loop_short)
next
  case (Cons c cps)
  define nb where "nb = inttobits c (Some w)"
  define pad where "pad = (if c = END_OF_INFO_CODE
       then replicate ((8 - (n + length nb) mod 8) mod 8) False else [])"
  define w' where "w' = (if c = BUMP_CODE then w + 1 else w)"
  define X where "X = pack_bits (n + length nb + length pad) w' cps @ tr"
  have c: "c < 512" using Cons.prems by simp
  have lnb: "length nb = w" unfolding nb_def using c Cons.prems(2) by (rule length_inttobits_512)
  have nne: "nb \<noteq> []" using lnb Cons.prems(2) by auto
  have val: "intfrombits ([] @ nb) = c" by (simp add: nb_def intfrombits_inttobits)
  have w': "9 \<le> w'" using Cons.prems(2) by (simp add: w'_def)
  have pb: "pack_bits n w (c # cps) @ tr = nb @ pad @ X"
    by (simp add: Let_def nb_def pad_def w'_def X_def)
  have lpad: "(if c = END_OF_INFO_CODE then (8 - (n + length nb) mod 8) mod 8 else 0) = length pad"
    by (simp add: pad_def)
  have "unpack_loop [] n 0 cs w (nb @ pad @ X) =
        c # unpack_loop [] ((n + length nb) mod 8) (length pad) (cs + 1) w' (pad @ X)"
    using unpack_loop_read [of "[]" nb w n cs "pad @ X"] lnb nne
    unfolding val lpad w'_def by simp
  also have "unpack_loop [] ((n + length nb) mod 8) (length pad) (cs + 1) w' (pad @ X) =
        unpack_loop [] ((n + length nb) mod 8 + length pad) 0 (cs + 1) w' (drop (length pad) (pad @ X))"
    by (rule unpack_loop_skip)
  also have "\<dots> = unpack_loop [] (n + length nb + length pad) 0 (cs + 1) w' X"
    by (simp, rule unpack_loop_offset_mod) (simp add: mod_add_left_eq)
  also have "\<dots> = cps"
    unfolding X_def using Cons.prems w' by (intro Cons.IH) simp_all
  finally show ?case unfolding pb .
qed

lemma unpack_pack:
  assumes "\<forall>c \<in> set cps. c < 512"
  shows "unpack isz' (pack isz cps) = cps"
proof -
  define B where "B = pack_bits 0 DEFAULT_MIN_BITS cps"
  define tr where "tr = replicate ((8 - length B mod 8) mod 8) False"
  have "length tr < 9"
  proof -
    have "(8 - length B mod 8) mod 8 < 8" by simp
    then show ?thesis by (simp add: tr_def)
  qed
  moreover have "9 \<le> DEFAULT_MIN_BITS" by (simp add: code_consts)
  ultimately have "unpack_loop [] 0 0 isz' DEFAULT_MIN_BITS (B @ tr) = cps"
    unfolding B_def using assms by (intro unpack_pack_bits)
  then show ?thesis
    by (simp add: unpack_def pack_bits_eq bytestobits_bitstobytes B_def tr_def)
qed

section \<open>Byte alignment after END_OF_INFO_CODE\<close>

lemma bytestobits_pack:
  "bytestobits (pack isz cps) =
     pack_bits 0 DEFAULT_MIN_BITS cps
     @ replicate ((8 - length (pack_bits 0 DEFAULT_MIN_BITS cps) mod 8) mod 8) False"
  by (simp add: pack_bits_eq bytestobits_bitstobytes)

lemma length_inttobits_END_OF_INFO:
  "length (inttobits END_OF_INFO_CODE (Some (DEFAULT_MIN_BITS + n))) = DEFAULT_MIN_BITS + n"
  by (rule length_inttobits_512) (simp_all add: code_consts DEFAULT_MIN_BITS_def)

lemma pack_layout_END_OF_INFO:
  "\<exists>head.
     bytestobits (pack isz pre) = head @ replicate ((8 - length head mod 8) mod 8) False
     \<and> bytestobits (pack isz (pre @ END_OF_INFO_CODE # post)) =
         head
         @ inttobits END_OF_INFO_CODE (Some (DEFAULT_MIN_BITS + count_list pre BUMP_CODE))
         @ replicate
             ((8 - (length head + (DEFAULT_MIN_BITS + count_list pre BUMP_CODE)) mod 8) mod 8) False
         @ bytestobits
             (pack_loop [] (isz + length pre + 1) (DEFAULT_MIN_BITS + count_list pre BUMP_CODE) post)"
proof -
  define w where "w = DEFAULT_MIN_BITS + count_list pre BUMP_CODE"
  define head where "head = pack_bits 0 DEFAULT_MIN_BITS pre"
  define eoi where "eoi = inttobits END_OF_INFO_CODE (Some w)"
  define k where "k = (8 - (length head + w) mod 8) mod 8"
  have le: "length eoi = w"
    unfolding eoi_def w_def by (rule length_inttobits_END_OF_INFO)
  have 1: "bytestobits (pack isz pre) = head @ replicate ((8 - length head mod 8) mod 8) False"
    unfolding head_def by (rule bytestobits_pack)
  have pb: "pack_bits 0 DEFAULT_MIN_BITS (pre @ [END_OF_INFO_CODE]) = head @ eoi @ replicate k False"
    using le by (simp add: pack_bits_append head_def eoi_def k_def w_def Let_def)
  have al: "length (head @ eoi @ replicate k False) mod 8 = 0"
    using pad_to_byte [of "length head + w"] le by (simp add: k_def add.assoc)
  have 2: "bytestobits (pack isz (pre @ [END_OF_INFO_CODE])) = head @ eoi @ replicate k False"
    unfolding bytestobits_pack pb using al by simp
  have "bytestobits (pack isz (pre @ END_OF_INFO_CODE # post)) =
        bytestobits (pack isz (pre @ [END_OF_INFO_CODE]))
        @ bytestobits (pack_loop [] (isz + length pre + 1) w post)"
    unfolding w_def pack_after_END_OF_INFO [of isz pre post "isz + length pre + 1"] by simp
  then have 3: "bytestobits (pack isz (pre @ END_OF_INFO_CODE # post)) =
        head @ eoi @ replicate k False @ bytestobits (pack_loop [] (isz + length pre + 1) w post)"
    unfolding 2 by simp
  from 1 3 show ?thesis unfolding eoi_def k_def w_def by (intro exI conjI)
qed

lemma pack_loop_first_codepoint:
  "take (length (inttobits c (Some w))) (bytestobits (pack_loop [] cs w (c # post))) =
     inttobits c (Some w)"
  by (simp add: pack_loop_bits bytestobits_bitstobytes Let_def)

lemma pack_next_codepoint_at_byte_boundary:
  "take (length (inttobits c (Some (DEFAULT_MIN_BITS + count_list pre BUMP_CODE))))
     (drop (8 * length (pack isz (pre @ [END_OF_INFO_CODE])))
        (bytestobits (pack isz (pre @ END_OF_INFO_CODE # c # post)))) =
   inttobits c (Some (DEFAULT_MIN_BITS + count_list pre BUMP_CODE))"
proof -
  have "bytestobits (pack isz (pre @ END_OF_INFO_CODE # c # post)) =
        bytestobits (pack isz (pre @ [END_OF_INFO_CODE]))
        @ bytestobits (pack_loop [] 0 (DEFAULT_MIN_BITS + count_list pre BUMP_CODE) (c # post))"
    unfolding pack_after_END_OF_INFO [of isz pre "c # post" 0] by simp
  then have "drop (8 * length (pack isz (pre @ [END_OF_INFO_CODE])))
        (bytestobits (pack isz (pre @ END_OF_INFO_CODE # c # post))) =
      bytestobits (pack_loop [] 0 (DEFAULT_MIN_BITS + count_list pre BUMP_CODE) (c # post))"
    by simp
  then show ?thesis by (simp only: pack_loop_first_codepoint)
qed

lemma pack_instance:
  "bytestobits (pack 259 [97, END_OF_INFO_CODE, 98]) =
     inttobits 97 (Some 9) @ inttobits END_OF_INFO_CODE (Some 9) @ replicate 6 False
     @ inttobits 98 (Some 9) @ replicate 7 False"
  by code_simp

text \<open>
  Claim C6.  \<open>BitPacker.pack\<close>, for every codepoint stream with an END_OF_INFO_CODE, with
  \<open>pre\<close> the codepoints before it and \<open>post\<close> those after it.  Read as bits
  (\<open>bytestobits\<close>), the bytes \<open>pack\<close> yields are: the bits \<open>head\<close> it writes for \<open>pre\<close> (the
  bytes yielded for \<open>pre\<close> alone are \<open>head\<close> filled up with zeros to whole bytes), then
  END_OF_INFO_CODE at the current width, which is \<open>DEFAULT_MIN_BITS\<close> plus the number of
  BUMP_CODEs in \<open>pre\<close>, then zeros up to the next multiple of eight bits, then the bits the
  loop writes for \<open>post\<close> from an empty bit buffer.  So the codepoint \<open>c\<close> that follows
  END_OF_INFO_CODE starts at a byte boundary: its bits at the current width are the bits of
  the output from index eight times the number of bytes yielded up to and including
  END_OF_INFO_CODE.  For the stream 97, 256, 98 and width 9 the output is the nine bits of
  97, the nine bits of 256, six zeros, the nine bits of 98 starting at bit 24, and the seven
  zeros that fill the last byte.  In full, the output for any stream is the bit stream
  \<open>pack_bits\<close> (each codepoint at the current width, zeros to the next multiple of eight
  after each END_OF_INFO_CODE), filled up with zeros to whole bytes at the end.  The padding
  is the work of \<open>pack_pad\<close>, which appends zeros up to the next multiple of eight bits, and
  at the level of bytes the output is the output for the stream up to and including
  END_OF_INFO_CODE followed by what the loop yields for \<open>post\<close> from an empty bit buffer.

  \<open>BitUnpacker.unpack\<close>: when the unpacker has consumed the bits \<open>read\<close> of its input, has
  no bits to ignore, and the bits \<open>nb\<close> that follow complete the codepoint END_OF_INFO_CODE,
  it yields END_OF_INFO_CODE and goes on with an empty accumulator at the first bit whose
  index in the input is a multiple of eight: it drops
  \<open>(8 - (length read + length nb) mod 8) mod 8\<close> bits first.
\<close>

theorem END_OF_INFO_byte_alignment:
  "(\<exists>head.
        bytestobits (pack isz pre) = head @ replicate ((8 - length head mod 8) mod 8) False
        \<and> bytestobits (pack isz (pre @ END_OF_INFO_CODE # post)) =
            head
            @ inttobits END_OF_INFO_CODE (Some (DEFAULT_MIN_BITS + count_list pre BUMP_CODE))
            @ replicate
                ((8 - (length head + (DEFAULT_MIN_BITS + count_list pre BUMP_CODE)) mod 8) mod 8)
                False
            @ bytestobits
                (pack_loop [] (isz + length pre + 1)
                   (DEFAULT_MIN_BITS + count_list pre BUMP_CODE) post))
   \<and> take (length (inttobits c (Some (DEFAULT_MIN_BITS + count_list pre BUMP_CODE))))
       (drop (8 * length (pack isz (pre @ [END_OF_INFO_CODE])))
          (bytestobits (pack isz (pre @ END_OF_INFO_CODE # c # post)))) =
     inttobits c (Some (DEFAULT_MIN_BITS + count_list pre BUMP_CODE))
   \<and> bytestobits (pack 259 [97, END_OF_INFO_CODE, 98]) =
       inttobits 97 (Some 9) @ inttobits END_OF_INFO_CODE (Some 9) @ replicate 6 False
       @ inttobits 98 (Some 9) @ replicate 7 False
   \<and> bytestobits (pack isz codepoints) =
       pack_bits 0 DEFAULT_MIN_BITS codepoints
       @ replicate ((8 - length (pack_bits 0 DEFAULT_MIN_BITS codepoints) mod 8) mod 8) False
   \<and> pack_pad tailbits = tailbits @ replicate ((8 - length tailbits mod 8) mod 8) False
   \<and> length (pack_pad tailbits) mod 8 = 0
   \<and> pack isz (pre @ END_OF_INFO_CODE # post) =
       pack isz (pre @ [END_OF_INFO_CODE]) @
       pack_loop [] (isz + length pre + 1) (DEFAULT_MIN_BITS + count_list pre BUMP_CODE) post
   \<and> (unpack_state [] 0 0 isz DEFAULT_MIN_BITS read = (acc, offset, 0, cs, w)
        \<and> length acc + length nb = w \<and> nb \<noteq> []
        \<and> intfrombits (acc @ nb) = END_OF_INFO_CODE \<longrightarrow>
       unpack_loop [] 0 0 isz DEFAULT_MIN_BITS (read @ nb @ rest) =
         unpack_loop [] 0 0 isz DEFAULT_MIN_BITS read @
         END_OF_INFO_CODE #
         unpack_loop [] 0 0 (cs + 1) w
           (drop ((8 - (length read + length nb) mod 8) mod 8) rest))"
proof (intro conjI impI)
  show "\<exists>head.
        bytestobits (pack isz pre) = head @ replicate ((8 - length head mod 8) mod 8) False
        \<and> bytestobits (pack isz (pre @ END_OF_INFO_CODE # post)) =
            head
            @ inttobits END_OF_INFO_CODE (Some (DEFAULT_MIN_BITS + count_list pre BUMP_CODE))
            @ replicate
                ((8 - (length head + (DEFAULT_MIN_BITS + count_list pre BUMP_CODE)) mod 8) mod 8)
                False
            @ bytestobits
                (pack_loop [] (isz + length pre + 1)
                   (DEFAULT_MIN_BITS + count_list pre BUMP_CODE) post)"
    by (rule pack_layout_END_OF_INFO)
  show "take (length (inttobits c (Some (DEFAULT_MIN_BITS + count_list pre BUMP_CODE))))
       (drop (8 * length (pack isz (pre @ [END_OF_INFO_CODE])))
          (bytestobits (pack isz (pre @ END_OF_INFO_CODE # c # post)))) =
     inttobits c (Some (DEFAULT_MIN_BITS + count_list pre BUMP_CODE))"
    by (rule pack_next_codepoint_at_byte_boundary)
  show "bytestobits (pack 259 [97, END_OF_INFO_CODE, 98]) =
       inttobits 97 (Some 9) @ inttobits END_OF_INFO_CODE (Some 9) @ replicate 6 False
       @ inttobits 98 (Some 9) @ replicate 7 False"
    by (rule pack_instance)
  show "bytestobits (pack isz codepoints) =
       pack_bits 0 DEFAULT_MIN_BITS codepoints
       @ replicate ((8 - length (pack_bits 0 DEFAULT_MIN_BITS codepoints) mod 8) mod 8) False"
    by (rule bytestobits_pack)
  show "pack_pad tailbits = tailbits @ replicate ((8 - length tailbits mod 8) mod 8) False"
    by (rule pack_pad_eq)
  show "length (pack_pad tailbits) mod 8 = 0"
    by (rule length_pack_pad)
  show "pack isz (pre @ END_OF_INFO_CODE # post) =
       pack isz (pre @ [END_OF_INFO_CODE]) @
       pack_loop [] (isz + length pre + 1) (DEFAULT_MIN_BITS + count_list pre BUMP_CODE) post"
    by (rule pack_after_END_OF_INFO)
next
  assume a: "unpack_state [] 0 0 isz DEFAULT_MIN_BITS read = (acc, offset, 0, cs, w)
        \<and> length acc + length nb = w \<and> nb \<noteq> []
        \<and> intfrombits (acc @ nb) = END_OF_INFO_CODE"
  from a have st: "unpack_state [] 0 0 isz DEFAULT_MIN_BITS read = (acc, offset, 0, cs, w)" ..
  from a have len: "length acc + length nb = w" by (elim conjE)
  from a have ne: "nb \<noteq> []" by (elim conjE)
  from a have eoi: "intfrombits (acc @ nb) = END_OF_INFO_CODE" by (elim conjE)
  show "unpack_loop [] 0 0 isz DEFAULT_MIN_BITS (read @ nb @ rest) =
         unpack_loop [] 0 0 isz DEFAULT_MIN_BITS read @
         END_OF_INFO_CODE #
         unpack_loop [] 0 0 (cs + 1) w
           (drop ((8 - (length read + length nb) mod 8) mod 8) rest)"
    using st len ne eoi by (rule unpack_skips_to_byte_boundary)
qed

theorem END_OF_INFO_byte_alignment_witness:
  "unpack_state [] 0 0 259 DEFAULT_MIN_BITS [] = ([], 0, 0, 259, 9)
   \<and> length ([] :: bool list) + length [True, False, False, False, False, False, False, False, False] = 9
   \<and> [True, False, False, False, False, False, False, False, False] \<noteq> []
   \<and> intfrombits ([] @ [True, False, False, False, False, False, False, False, False]) = END_OF_INFO_CODE
   \<and> unpack_loop [] 0 0 259 DEFAULT_MIN_BITS
        ([] @ [True, False, False, False, False, False, False, False, False] @
         replicate 7 False @ inttobits 98 (Some 9)) =
      unpack_loop [] 0 0 259 DEFAULT_MIN_BITS [] @
      END_OF_INFO_CODE #
      unpack_loop [] 0 0 (259 + 1) 9
        (drop ((8 - (length ([] :: bool list)
                     + length [True, False, False, False, False, False, False, False, False]) mod 8) mod 8)
           (replicate 7 False @ inttobits 98 (Some 9)))
   \<and> take (length (inttobits 98 (Some (DEFAULT_MIN_BITS + count_list [97] BUMP_CODE))))
       (drop (8 * length (pack 259 ([97] @ [END_OF_INFO_CODE])))
          (bytestobits (pack 259 ([97] @ END_OF_INFO_CODE # 98 # [])))) =
     inttobits 98 (Some (DEFAULT_MIN_BITS + count_list [97] BUMP_CODE))"
proof -
  let ?nb = "[True, False, False, False, False, False, False, False, False]"
  have h1: "unpack_state [] 0 0 259 DEFAULT_MIN_BITS [] = ([], 0, 0, 259, 9)"
    by (simp add: DEFAULT_MIN_BITS_def)
  have h2: "length ([] :: bool list) + length ?nb = 9" by simp
  have h3: "?nb \<noteq> []" by simp
  have h4: "intfrombits ([] @ ?nb) = END_OF_INFO_CODE" by code_simp
  from END_OF_INFO_byte_alignment
    [where tailbits = "[True]" and isz = 259 and pre = "[97]" and post = "[]" and c = 98
       and read = "[]" and acc = "[]" and offset = 0 and cs = 259 and w = 9 and nb = ?nb
       and rest = "replicate 7 False @ inttobits 98 (Some 9)"]
    h1 h2 h3 h4
  show ?thesis by blast
qed


section \<open>Compression of an input that overflows the dictionary\<close>

lemma byte_256: "(of_nat 256 :: byte) = 0"
  by simp

lemma overflow_byte_Suc:
  "overflow_byte (Suc i) = overflow_byte i + of_nat (2 * (i div 256) + 1)"
proof (cases "Suc i mod 256 = 0")
  case False
  then have "Suc i mod 256 = Suc (i mod 256)" "Suc i div 256 = i div 256"
    by (auto simp: mod_Suc div_Suc)
  then show ?thesis
    by (simp add: overflow_byte_def algebra_simps)
next
  case True
  then have m: "i mod 256 = 255" and d: "Suc i div 256 = Suc (i div 256)"
    by (auto simp: mod_Suc div_Suc split: if_splits)
  have "overflow_byte i + of_nat (2 * (i div 256) + 1) =
        (of_nat 255 + 1) * (of_nat (2 * (i div 256) + 1) :: byte)"
    unfolding overflow_byte_def m by (simp only: distrib_right mult_1)
  also have "(of_nat 255 + 1 :: byte) = 0" by simp
  finally show ?thesis using True by (simp add: overflow_byte_def)
qed

lemma odd_byte_cancel:
  assumes "odd (unat (d :: byte))" and "a * d = b * d"
  shows "a = b"
proof -
  have "(a - b) * d = 0" using assms(2) by (simp add: left_diff_distrib)
  then have "unat ((a - b) * d) = 0" by simp
  then have "(unat (a - b) * unat d) mod 2 ^ 8 = 0"
    by (simp add: unat_word_ariths)
  then have dv: "(2::nat) ^ 8 dvd unat (a - b) * unat d" by (simp add: dvd_eq_mod_eq_0)
  have "coprime ((2::nat) ^ 8) (unat d)"
    by (rule coprime_power_left_iff [THEN iffD2]) (simp add: assms(1))
  then have "(2::nat) ^ 8 dvd unat (a - b)"
    using dv by (simp add: coprime_dvd_mult_left_iff)
  moreover have "unat (a - b) < 2 ^ 8" using unat_byte_less [of "a - b"] by simp
  ultimately have "unat (a - b) = 0" by (meson dvd_imp_le not_le zero_less_iff_neq_zero neq0_conv)
  then have "a - b = 0" by (simp add: unat_eq_0)
  then show ?thesis by simp
qed


lemma overflow_pair_inj:
  assumes i: "i < 32768" and j: "j < 32768"
    and e1: "overflow_byte i = overflow_byte j"
    and e2: "overflow_byte (Suc i) = overflow_byte (Suc j)"
  shows "i = j"
proof -
  define di where "di = 2 * (i div 256) + 1"
  define dj where "dj = 2 * (j div 256) + 1"
  have "i div 256 < 128" "j div 256 < 128"
    using i j by (simp_all add: div_less_iff_less_mult)
  then have di: "di < 256" and dj: "dj < 256" by (simp_all add: di_def dj_def)
  have "overflow_byte i + of_nat di = overflow_byte j + of_nat dj"
    using e2 by (simp only: overflow_byte_Suc di_def dj_def)
  then have "(of_nat di :: byte) = of_nat dj" using e1 by simp
  then have "di = dj" using di dj by (intro byte_of_nat_inj)
  then have q: "i div 256 = j div 256" by (simp add: di_def dj_def)
  have u: "unat (of_nat di :: byte) = di" using di by (rule unat_of_nat_byte)
  have "odd (unat (of_nat di :: byte))" unfolding u by (simp add: di_def)
  moreover have "(of_nat (i mod 256) :: byte) * of_nat di = of_nat (j mod 256) * of_nat di"
    using e1 q by (simp add: overflow_byte_def di_def)
  ultimately have "(of_nat (i mod 256) :: byte) = of_nat (j mod 256)"
    by (rule odd_byte_cancel)
  then have "i mod 256 = j mod 256" by (intro byte_of_nat_inj) simp_all
  with q show ?thesis by (metis div_mult_mod_eq)
qed

lemma pairs_map_upt:
  "zip (map f [0..<n]) (tl (map f [0..<n])) = map (\<lambda>i. (f i, f (Suc i))) [0..<n - 1]"
proof (rule nth_equalityI)
  show "length (zip (map f [0..<n]) (tl (map f [0..<n]))) =
        length (map (\<lambda>i. (f i, f (Suc i))) [0..<n - 1])"
    by simp
next
  fix i assume "i < length (zip (map f [0..<n]) (tl (map f [0..<n])))"
  then have i: "i < n - 1" by simp
  then show "zip (map f [0..<n]) (tl (map f [0..<n])) ! i =
        map (\<lambda>i. (f i, f (Suc i))) [0..<n - 1] ! i"
    by (simp add: nth_tl)
qed

lemma distinct_overflow_pairs:
  assumes "n \<le> 32768"
  shows "distinct (zip (map overflow_byte [0..<n]) (tl (map overflow_byte [0..<n])))"
proof -
  have "inj_on (\<lambda>i. (overflow_byte i, overflow_byte (Suc i))) (set [0..<n - 1])"
  proof (rule inj_onI)
    fix i j
    assume "i \<in> set [0..<n - 1]" "j \<in> set [0..<n - 1]"
      and "(overflow_byte i, overflow_byte (Suc i)) = (overflow_byte j, overflow_byte (Suc j))"
    then show "i = j" using assms by (intro overflow_pair_inj) auto
  qed
  then show ?thesis by (simp add: pairs_map_upt distinct_map)
qed

lemma zip_tl_snoc:
  "xs \<noteq> [] \<Longrightarrow> zip (xs @ [y]) (tl (xs @ [y])) = zip xs (tl xs) @ [(last xs, y)]"
proof (induction xs)
  case Nil
  then show ?case by simp
next
  case (Cons x xs)
  show ?case
  proof (cases "xs = []")
    case True
    then show ?thesis by simp
  next
    case False
    then obtain z zs where xs: "xs = z # zs" by (cases xs) auto
    from Cons.IH [OF False] show ?thesis unfolding xs by simp
  qed
qed

lemma enc_run_base:
  assumes "Encoder_init m = Inr e0"
  shows "\<exists>e. encode_bytes e0 [x] = Inr ([], e) \<and> enc_run m [x] [] e"
proof -
  have e0: "e0 = \<lparr>enc_closed = False, enc_max_code_size = m, enc_buffer = [],
                 enc_prefixes = initial_prefixes, enc_next_bumb_code = NEXT_BUMP_CODE,
                 enc_current_code_bits = 9\<rparr>"
    and m: "259 \<le> m"
    using assms by (auto simp: Encoder_init_def Let_def enc_clear_codes_def code_size_def
        split: if_splits)
  have "encode_step e0 x = Inr ([], e0\<lparr>enc_buffer := [x]\<rparr>)"
    using m unfolding e0
    by (simp add: encode_step_def encode_byte_def map_of_initial_prefixes code_size_def
        code_consts)
  moreover have "enc_run m [x] [] (e0\<lparr>enc_buffer := [x]\<rparr>)"
    unfolding e0 by (simp add: enc_run_def map_of_initial_prefixes)
  ultimately show ?thesis by simp
qed

lemma enc_run_step:
  assumes run: "enc_run m xs out e" and ne: "xs \<noteq> []"
    and new: "(last xs, y) \<notin> set (zip xs (tl xs))"
    and room: "int (259 + length xs) \<le> m"
  shows "\<exists>out3 e'. encode_step e y = Inr (unat (last xs) # out3, e')
           \<and> enc_run m (xs @ [y]) (out @ unat (last xs) # out3) e'"
proof -
  from run have buf: "enc_buffer e = [last xs]"
    and len: "length (enc_prefixes e) = 258 + length xs"
    and sing: "\<And>b. map_of (enc_prefixes e) (KBytes [b]) = Some (unat b)"
    and pairs: "\<And>a b. map_of (enc_prefixes e) (KBytes [a, b]) \<noteq> None \<Longrightarrow>
                  (a, b) \<in> set (zip xs (tl xs))"
    and mx: "enc_max_code_size e = m"
    and fo: "filter (\<lambda>c. c \<noteq> BUMP_CODE) out = map unat (butlast xs)"
    and lo: "\<And>c. c \<in> set out \<Longrightarrow> c < 256 \<or> c = BUMP_CODE"
    unfolding enc_run_def by blast+
  have notin: "map_of (enc_prefixes e) (KBytes [last xs, y]) = None"
    using pairs [of "last xs" y] new by blast
  then have notkey: "KBytes [last xs, y] \<notin> fst ` set (enc_prefixes e)"
    by (simp add: map_of_eq_None_iff)
  define e1 where "e1 = (add_code e [last xs, y])\<lparr>enc_buffer := [y]\<rparr>"
  have s1: "encode_byte e y = Inr ([unat (last xs)], e1)"
    using notin by (simp add: encode_byte_def buf sing e1_def Let_def)
  have len1: "length (enc_prefixes e1) = 259 + length xs"
    using notkey by (simp add: e1_def add_code_def length_alist_update len)
  have mx1: "enc_max_code_size e1 = m" by (simp add: e1_def add_code_def mx)
  have lk1: "map_of (enc_prefixes e1) k =
             (if k = KBytes [last xs, y] then Some (length (enc_prefixes e)) else map_of (enc_prefixes e) k)" for k
    by (simp add: e1_def add_code_def update_conv')
  define out3 where "out3 = (if code_size e1 > enc_next_bumb_code e1 then [BUMP_CODE] else [])"
  define e2 where "e2 = (if code_size e1 > enc_next_bumb_code e1
      then e1\<lparr>enc_current_code_bits := enc_current_code_bits e1 + 1,
              enc_next_bumb_code := push_bit 1 (enc_next_bumb_code e1) OR 1\<rparr> else e1)"
  have noflush: "\<not> int (code_size e1) > enc_max_code_size e1"
    using room by (simp add: code_size_def len1 mx1)
  have step: "encode_step e y = Inr (unat (last xs) # out3, e2)"
    using s1 noflush by (simp add: encode_step_def seq_gen_def bump_def out3_def e2_def)
  have p2: "enc_prefixes e2 = enc_prefixes e1" "enc_buffer e2 = [y]"
      "enc_max_code_size e2 = m"
    by (simp_all add: e2_def e1_def add_code_def mx)
  have o3: "out3 = [] \<or> out3 = [BUMP_CODE]" by (simp add: out3_def)
  have "enc_run m (xs @ [y]) (out @ unat (last xs) # out3) e2"
    unfolding enc_run_def
  proof (intro conjI allI impI ballI)
    show "enc_buffer e2 = [last (xs @ [y])]" by (simp add: p2)
    show "length (enc_prefixes e2) = 258 + length (xs @ [y])" by (simp add: p2 len1)
    show "map_of (enc_prefixes e2) (KBytes [b]) = Some (unat b)" for b
      by (simp add: p2 lk1 sing)
    show "(a, b) \<in> set (zip (xs @ [y]) (tl (xs @ [y])))"
      if "map_of (enc_prefixes e2) (KBytes [a, b]) \<noteq> None" for a b
      using that pairs [of a b] by (auto simp: p2 lk1 zip_tl_snoc [OF ne] split: if_splits)
    show "enc_max_code_size e2 = m" by (simp add: p2)
    have "unat (last xs) \<noteq> BUMP_CODE"
      using unat_byte_less [of "last xs"] by (simp add: code_consts)
    moreover have "butlast xs @ [last xs] = xs" using ne by simp
    then have "map unat (butlast xs) @ [unat (last xs)] = map unat xs"
      by (metis list.simps(8,9) map_append)
    ultimately show "filter (\<lambda>c. c \<noteq> BUMP_CODE) (out @ unat (last xs) # out3) =
          map unat (butlast (xs @ [y]))"
      using o3 fo by (auto simp: butlast_append)
    show "c < 256 \<or> c = BUMP_CODE" if "c \<in> set (out @ unat (last xs) # out3)" for c
      using that o3 lo [of c] unat_byte_less [of "last xs"] by auto
  qed
  with step show ?thesis by blast
qed

lemma encode_bytes_snoc:
  "encode_bytes e (xs @ [y]) = seq_gen (encode_bytes e xs) (\<lambda>e. encode_step e y)"
  by (simp add: encode_bytes_append)

lemma distinct_zip_tl_snoc:
  assumes "xs \<noteq> []" and "distinct (zip (xs @ [y]) (tl (xs @ [y])))"
  shows "distinct (zip xs (tl xs))" and "(last xs, y) \<notin> set (zip xs (tl xs))"
  using assms(2) unfolding zip_tl_snoc [OF assms(1)] by simp_all

lemma enc_run_all:
  assumes init: "Encoder_init m = Inr e0"
  shows "xs \<noteq> [] \<Longrightarrow> distinct (zip xs (tl xs)) \<Longrightarrow> int (258 + length xs) \<le> m \<Longrightarrow>
         \<exists>out e. encode_bytes e0 xs = Inr (out, e) \<and> enc_run m xs out e"
proof (induction xs rule: rev_nonempty_induct)
  case (single x)
  from enc_run_base [OF init, of x] show ?case by blast
next
  case (snoc y xs)
  have d: "distinct (zip xs (tl xs))" and new: "(last xs, y) \<notin> set (zip xs (tl xs))"
    using distinct_zip_tl_snoc [OF snoc.hyps(1) snoc.prems(1)] by blast+
  have room: "int (259 + length xs) \<le> m" using snoc.prems(2) by simp
  then have "int (258 + length xs) \<le> m" by simp
  from snoc.IH [OF d this] obtain out e where
    r: "encode_bytes e0 xs = Inr (out, e)" and run: "enc_run m xs out e"
    by blast
  from enc_run_step [OF run snoc.hyps(1) new room] obtain out3 e' where
    s: "encode_step e y = Inr (unat (last xs) # out3, e')"
    and run': "enc_run m (xs @ [y]) (out @ unat (last xs) # out3) e'"
    by blast
  have "encode_bytes e0 (xs @ [y]) = Inr (out @ unat (last xs) # out3, e')"
    using r s by (simp add: encode_bytes_snoc seq_gen_def)
  with run' show ?case by blast
qed

lemma enc_run_overflow:
  assumes run: "enc_run m xs out e" and ne: "xs \<noteq> []"
    and new: "(last xs, y) \<notin> set (zip xs (tl xs))"
    and full: "int (258 + length xs) = m"
  shows "\<exists>e'. encode_step e y = Inr ([unat (last xs), unat y, END_OF_INFO_CODE], e')
           \<and> enc_prefixes e' = initial_prefixes \<and> enc_buffer e' = []
           \<and> enc_max_code_size e' = m \<and> enc_next_bumb_code e' = NEXT_BUMP_CODE"
proof -
  from run have buf: "enc_buffer e = [last xs]"
    and len: "length (enc_prefixes e) = 258 + length xs"
    and sing: "\<And>b. map_of (enc_prefixes e) (KBytes [b]) = Some (unat b)"
    and pairs: "\<And>a b. map_of (enc_prefixes e) (KBytes [a, b]) \<noteq> None \<Longrightarrow>
                  (a, b) \<in> set (zip xs (tl xs))"
    and mx: "enc_max_code_size e = m"
    unfolding enc_run_def by blast+
  have notin: "map_of (enc_prefixes e) (KBytes [last xs, y]) = None"
    using pairs [of "last xs" y] new by blast
  then have notkey: "KBytes [last xs, y] \<notin> fst ` set (enc_prefixes e)"
    by (simp add: map_of_eq_None_iff)
  define e1 where "e1 = (add_code e [last xs, y])\<lparr>enc_buffer := [y]\<rparr>"
  have s1: "encode_byte e y = Inr ([unat (last xs)], e1)"
    using notin by (simp add: encode_byte_def buf sing e1_def Let_def)
  have len1: "length (enc_prefixes e1) = 259 + length xs"
    using notkey by (simp add: e1_def add_code_def length_alist_update len)
  have mx1: "enc_max_code_size e1 = m" by (simp add: e1_def add_code_def mx)
  have b1: "enc_buffer e1 = [y]" by (simp add: e1_def)
  have lk1: "map_of (enc_prefixes e1) (KBytes [y]) = Some (unat y)"
    by (simp add: e1_def add_code_def update_conv' sing)
  have over: "int (code_size e1) > enc_max_code_size e1"
    using full by (simp add: code_size_def len1 mx1)
  define e2 where "e2 = enc_clear_codes (e1\<lparr>enc_buffer := []\<rparr>)"
  have fl: "flush e1 = Inr ([unat y, END_OF_INFO_CODE], e2)"
    by (simp add: flush_def b1 lk1 e2_def)
  have p2: "enc_prefixes e2 = initial_prefixes" "enc_buffer e2 = []"
      "enc_max_code_size e2 = m" "enc_next_bumb_code e2 = NEXT_BUMP_CODE"
    by (simp_all add: e2_def enc_clear_codes_def mx1)
  have nobump: "\<not> code_size e2 > enc_next_bumb_code e2"
    by (simp add: code_size_def p2 code_consts)
  have "encode_step e y = Inr ([unat (last xs), unat y, END_OF_INFO_CODE], e2)"
    using s1 over fl nobump by (simp add: encode_step_def seq_gen_def)
  with p2 show ?thesis by blast
qed

lemma encode_last_byte:
  assumes "enc_prefixes e = initial_prefixes" "enc_buffer e = []"
    "enc_max_code_size e = m" "enc_next_bumb_code e = NEXT_BUMP_CODE" "259 \<le> m"
  shows "\<exists>e'. seq_gen (encode_step e z) flush = Inr ([unat z, END_OF_INFO_CODE], e')"
proof -
  have "encode_step e z = Inr ([], e\<lparr>enc_buffer := [z]\<rparr>)"
    using assms
    by (simp add: encode_step_def encode_byte_def map_of_initial_prefixes code_size_def
        code_consts)
  moreover have "flush (e\<lparr>enc_buffer := [z]\<rparr>) =
      Inr ([unat z, END_OF_INFO_CODE], enc_clear_codes (e\<lparr>enc_buffer := []\<rparr>))"
    using assms by (simp add: flush_def map_of_initial_prefixes)
  ultimately show ?thesis by simp
qed

lemma encode_overflow:
  assumes init: "Encoder_init m = Inr e0" and ne: "xs \<noteq> []"
    and d: "distinct (zip (xs @ [y]) (tl (xs @ [y])))"
    and full: "int (258 + length xs) = m"
  shows "\<exists>out e. encode e0 (xs @ [y, z]) =
             Inr (out @ [unat (last xs), unat y, END_OF_INFO_CODE, unat z, END_OF_INFO_CODE], e)
           \<and> filter (\<lambda>c. c \<noteq> BUMP_CODE) out = map unat (butlast xs)
           \<and> (\<forall>c \<in> set out. c < 256 \<or> c = BUMP_CODE)"
proof -
  have d': "distinct (zip xs (tl xs))" and new: "(last xs, y) \<notin> set (zip xs (tl xs))"
    using distinct_zip_tl_snoc [OF ne d] by blast+
  have m259: "259 \<le> m"
    using init by (auto simp: Encoder_init_def Let_def enc_clear_codes_def code_size_def
        split: if_splits)
  have "int (258 + length xs) \<le> m" using full by simp
  from enc_run_all [OF init ne d' this] obtain out e where
    r: "encode_bytes e0 xs = Inr (out, e)" and run: "enc_run m xs out e"
    by blast
  from enc_run_overflow [OF run ne new full] obtain e1 where
    s1: "encode_step e y = Inr ([unat (last xs), unat y, END_OF_INFO_CODE], e1)"
    and p1: "enc_prefixes e1 = initial_prefixes" "enc_buffer e1 = []"
      "enc_max_code_size e1 = m" "enc_next_bumb_code e1 = NEXT_BUMP_CODE"
    by blast
  from encode_last_byte [OF p1 m259, of z] obtain e2 where
    s2: "seq_gen (encode_step e1 z) flush = Inr ([unat z, END_OF_INFO_CODE], e2)"
    by blast
  have xs: "xs @ [y, z] = xs @ [y] @ [z]" by simp
  have "encode e0 (xs @ [y, z]) =
        seq_gen (encode_bytes e0 xs) (\<lambda>e. seq_gen (encode_step e y)
          (\<lambda>e. seq_gen (encode_step e z) flush))"
    unfolding xs encode_def encode_bytes_append
    by (simp add: seq_gen_assoc)
  also have "\<dots> = Inr (out @ [unat (last xs), unat y, END_OF_INFO_CODE, unat z, END_OF_INFO_CODE], e2)"
    using r s1 s2 by (simp add: seq_gen_def)
  finally show ?thesis
    using run unfolding enc_run_def by blast
qed

lemma dec_lit_init: "dec_lit Decoder_init"
  by (simp add: dec_lit_def Decoder_init_def dec_clear_codes_def map_of_initial_codepoints)

lemma decode_codepoint_literal:
  assumes "dec_lit d" and c: "c < 256"
  shows "\<exists>d'. decode_codepoint d c = Inr (VBytes [of_nat c], d') \<and> dec_lit d'"
proof -
  from assms have lk: "map_of (dec_codepoints d) c = Some (VBytes [of_nat c])"
    and lits: "\<And>k. k < 256 \<Longrightarrow> map_of (dec_codepoints d) k = Some (VBytes [of_nat k])"
    and len: "256 \<le> length (dec_codepoints d)"
    and pre: "dec_prefix d = None \<or> (\<exists>p. dec_prefix d = Some (VBytes p))"
    unfolding dec_lit_def by blast+
  have nc: "c \<noteq> CLEAR_CODE" "c \<noteq> END_OF_INFO_CODE" using c by (simp_all add: code_consts)
  from pre show ?thesis
  proof
    assume n: "dec_prefix d = None"
    have "decode_codepoint d c = Inr (VBytes [of_nat c], d\<lparr>dec_prefix := Some (VBytes [of_nat c])\<rparr>)"
      using nc lk n by (simp add: decode_codepoint_def)
    moreover have "dec_lit (d\<lparr>dec_prefix := Some (VBytes [of_nat c])\<rparr>)"
      using lits len by (simp add: dec_lit_def)
    ultimately show ?thesis by blast
  next
    assume "\<exists>p. dec_prefix d = Some (VBytes p)"
    then obtain p where p: "dec_prefix d = Some (VBytes p)" by blast
    define d' where "d' = d\<lparr>dec_codepoints :=
        AList.update (length (dec_codepoints d)) (VBytes (p @ [of_nat c])) (dec_codepoints d),
        dec_prefix := Some (VBytes [of_nat c])\<rparr>"
    have "decode_codepoint d c = Inr (VBytes [of_nat c], d')"
      using nc lk p by (simp add: decode_codepoint_def prefix_plus_first_def d'_def)
    moreover have "dec_lit d'"
      using lits len by (auto simp: dec_lit_def d'_def update_conv' length_alist_update)
    ultimately show ?thesis by blast
  qed
qed

lemma decode_loop_literals:
  "dec_lit d \<Longrightarrow> \<forall>c \<in> set cps. c < 256 \<or> c = BUMP_CODE \<Longrightarrow>
   \<exists>d'. decode_loop d (cps @ END_OF_INFO_CODE # rest) =
     (map of_nat (filter (\<lambda>c. c \<noteq> BUMP_CODE) cps), None, d')"
proof (induction cps arbitrary: d)
  case Nil
  have "END_OF_INFO_CODE \<noteq> BUMP_CODE" by (simp add: code_consts)
  then show ?case by simp
next
  case (Cons c cps)
  show ?case
  proof (cases "c = BUMP_CODE")
    case True
    from Cons.IH [OF Cons.prems(1)] Cons.prems(2) True show ?thesis by simp
  next
    case False
    then have c: "c < 256" using Cons.prems(2) by simp
    then have ne: "c \<noteq> END_OF_INFO_CODE" by (simp add: code_consts)
    from decode_codepoint_literal [OF Cons.prems(1) c] obtain d1 where
      s: "decode_codepoint d c = Inr (VBytes [of_nat c], d1)" and l: "dec_lit d1"
      by blast
    from Cons.IH [OF l] Cons.prems(2) obtain d' where
      "decode_loop d1 (cps @ END_OF_INFO_CODE # rest) =
         (map of_nat (filter (\<lambda>c. c \<noteq> BUMP_CODE) cps), None, d')"
      by auto
    then show ?thesis using False ne s by simp
  qed
qed

lemma overflow_input_split:
  "overflow_input =
     map overflow_byte [0..<32510] @ [overflow_byte 32510, overflow_byte 32511]"
proof -
  have "[0..<32510 + 2] = [0..<32510] @ [32510..<32510 + 2]"
    by (rule upt_add_eq_append) simp
  moreover have "[32510..<32510 + 2] = [32510, 32511 :: nat]"
    by (simp add: upt_conv_Cons)
  ultimately have "[0..<32512] = [0..<32510] @ [32510, 32511 :: nat]" by simp
  then show ?thesis by (simp add: overflow_input_def)
qed

text \<open>
  Claim C1.  The round trip fails on the code once the dictionary overflows.  For the
  32512 bytes of \<open>overflow_input\<close>, \<open>compress\<close> returns a byte string, and \<open>decompress\<close>
  of that byte string yields the input without its last byte, with no exception.  The
  byte 32511 of the input makes the dictionary larger than \<open>max_code_size\<close> (2 ^ 15):
  \<open>Encoder.flush\<close> then yields END_OF_INFO_CODE in the middle of the stream, and
  \<open>Decoder.decode\<close> returns at the first END_OF_INFO_CODE, so what was encoded after it is
  never decoded.
\<close>

theorem compress_decompress_overflow:
  "length overflow_input = 32512
   \<and> (\<exists>c. compress overflow_input = Inr c
          \<and> decompress c = (butlast overflow_input, None)
          \<and> fst (decompress c) \<noteq> overflow_input)"
proof
  show "length overflow_input = 32512" by (simp add: overflow_input_def)
next
  define xs where "xs = map overflow_byte [0..<32510]"
  define y where "y = overflow_byte 32510"
  define z where "z = overflow_byte 32511"
  have inp: "overflow_input = xs @ [y, z]"
    by (simp add: overflow_input_split xs_def y_def z_def)
  have ne: "xs \<noteq> []" by (simp add: xs_def)
  have lx: "length xs = 32510" by (simp add: xs_def)
  have "xs @ [y] = map overflow_byte ([0..<32510] @ [32510])"
    by (simp add: xs_def y_def)
  also have "[0..<32510] @ [32510] = [0..<Suc 32510]" by (simp only: upt_Suc_append le0)
  finally have xy: "xs @ [y] = map overflow_byte [0..<Suc 32510]" .
  have d: "distinct (zip (xs @ [y]) (tl (xs @ [y])))"
    unfolding xy by (rule distinct_overflow_pairs) simp
  obtain e0 where init: "Encoder_init (2 ^ DEFAULT_MAX_BITS) = Inr e0"
    and cs0: "code_size e0 = 259"
    by (simp add: Encoder_init_def Let_def enc_clear_codes_def code_size_def code_consts)
  have full: "int (258 + length xs) = 2 ^ DEFAULT_MAX_BITS"
    by (simp add: lx code_consts)
  from encode_overflow [OF init ne d full, of z] obtain out e where
    enc: "encode e0 (xs @ [y, z]) =
            Inr (out @ [unat (last xs), unat y, END_OF_INFO_CODE, unat z, END_OF_INFO_CODE], e)"
    and fo: "filter (\<lambda>c. c \<noteq> BUMP_CODE) out = map unat (butlast xs)"
    and lo: "\<forall>c \<in> set out. c < 256 \<or> c = BUMP_CODE"
    by blast
  define cps where
    "cps = out @ [unat (last xs), unat y, END_OF_INFO_CODE, unat z, END_OF_INFO_CODE]"
  have comp: "compress overflow_input = Inr (pack 259 cps)"
    using init enc cs0 by (simp add: compress_def encodetobytes_def inp cps_def)
  have small: "\<forall>c \<in> set cps. c < 512"
    using lo unat_byte_less [of "last xs"] unat_byte_less [of y] unat_byte_less [of z]
    by (auto simp: cps_def code_consts)
  have un: "unpack (dec_code_size Decoder_init) (pack 259 cps) = cps"
    using small by (rule unpack_pack)
  define lit where "lit = out @ [unat (last xs), unat y]"
  have cps: "cps = lit @ END_OF_INFO_CODE # [unat z, END_OF_INFO_CODE]"
    by (simp add: cps_def lit_def)
  have ll: "\<forall>c \<in> set lit. c < 256 \<or> c = BUMP_CODE"
    using lo unat_byte_less [of "last xs"] unat_byte_less [of y] by (auto simp: lit_def)
  from decode_loop_literals [OF dec_lit_init ll, of "[unat z, END_OF_INFO_CODE]"]
  obtain d' where dl: "decode_loop Decoder_init cps =
      (map of_nat (filter (\<lambda>c. c \<noteq> BUMP_CODE) lit), None, d')"
    unfolding cps by blast
  have nb: "unat (last xs) \<noteq> BUMP_CODE" "unat y \<noteq> BUMP_CODE"
    using unat_byte_less [of "last xs"] unat_byte_less [of y] by (simp_all add: code_consts)
  have "filter (\<lambda>c. c \<noteq> BUMP_CODE) lit = map unat (butlast xs @ [last xs, y])"
    using nb fo by (simp add: lit_def)
  also have "butlast xs @ [last xs, y] = xs @ [y]"
    using ne append_butlast_last_id [OF ne] by (metis append.assoc append_Cons append_Nil)
  finally have "map of_nat (filter (\<lambda>c. c \<noteq> BUMP_CODE) lit) = xs @ [y]"
    by (simp add: comp_def)
  then have "decompress (pack 259 cps) = (xs @ [y], None)"
    using un dl by (simp add: decompress_def decodefrombytes_def decode_def)
  moreover have "butlast overflow_input = xs @ [y]"
    by (simp add: inp butlast_append)
  moreover have "xs @ [y] \<noteq> overflow_input"
    by (simp add: inp)
  ultimately show "\<exists>c. compress overflow_input = Inr c
          \<and> decompress c = (butlast overflow_input, None)
          \<and> fst (decompress c) \<noteq> overflow_input"
    using comp by simp
qed

end
